theory Spec2Isabelle
  imports Main
begin

section \<open>Node trees\<close>

text \<open>
  A \<open>SimplifiedNode\<close> is an object with an \<open>id\<close>, further fields that the cache never
  inspects (name, type, layout, styles, ...; gathered in \<open>nfields\<close>) and an optional
  \<open>children\<close> array. \<open>children = None\<close> is the field being absent, \<open>Some []\<close> the
  empty array.
\<close>

datatype 'a node = Node (nid: string) (nfields: 'a) (children: "'a node list option")

text \<open>
  \<open>getNodeDepth\<close>: the guard \<open>!node.children || node.children.length === 0\<close> gives 0;
  otherwise \<open>1 + Math.max(...childDepths)\<close>, the maximum of a non-empty argument list.
\<close>

fun getNodeDepth :: "'a node \<Rightarrow> int" where
  "getNodeDepth (Node i p None) = 0"
| "getNodeDepth (Node i p (Some [])) = 0"
| "getNodeDepth (Node i p (Some (c # cs))) =
     1 + fold max (map getNodeDepth cs) (getNodeDepth c)"

text \<open>
  \<open>getNodeDepthFromRoot\<close>: the \<open>for\<close> loop over \<open>nodes\<close> is the recursion on the list,
  the recursive call on \<open>node.children\<close> the nested one; \<open>-1\<close> is "not found".
\<close>

function getNodeDepthFromRoot :: "'a node list \<Rightarrow> string \<Rightarrow> int \<Rightarrow> int" where
  "getNodeDepthFromRoot [] targetId currentDepth = -1"
| "getNodeDepthFromRoot (n # rest) targetId currentDepth =
    (if nid n = targetId then currentDepth
     else case children n of
       None \<Rightarrow> getNodeDepthFromRoot rest targetId currentDepth
     | Some cs \<Rightarrow>
        (let found = getNodeDepthFromRoot cs targetId (currentDepth + 1)
         in if found \<noteq> -1 then found
            else getNodeDepthFromRoot rest targetId currentDepth))"
  by pat_completeness auto
termination
  apply (relation "measure (\<lambda>(ns, t, d). size_list size ns)")
    apply auto
  subgoal for n rest cs by (cases n) auto
  done

text \<open>
  \<open>limitNodeDepth\<close>: at \<open>maxDepth <= 0\<close> the rest pattern
  \<open>{ children, ...nodeWithoutChildren }\<close> copies every field but \<open>children\<close>; a node
  without children (absent or empty array) is returned as it is; otherwise the spread
  copy gets the mapped children.
\<close>

fun limitNodeDepth :: "'a node \<Rightarrow> int \<Rightarrow> 'a node" where
  "limitNodeDepth (Node i p ch) maxDepth =
    (if maxDepth \<le> 0 then Node i p None
     else case ch of
       None \<Rightarrow> Node i p ch
     | Some cs \<Rightarrow>
        if cs = [] then Node i p ch
        else Node i p (Some (map (\<lambda>child. limitNodeDepth child (maxDepth - 1)) cs)))"

text \<open>\<open>findNodeInTree\<close>: depth-first search, \<open>None\<close> is the \<open>null\<close> result.\<close>

function findNodeInTree :: "'a node list \<Rightarrow> string \<Rightarrow> 'a node option" where
  "findNodeInTree [] targetId = None"
| "findNodeInTree (n # rest) targetId =
    (if nid n = targetId then Some n
     else case children n of
       None \<Rightarrow> findNodeInTree rest targetId
     | Some cs \<Rightarrow>
        (case findNodeInTree cs targetId of
           Some found \<Rightarrow> Some found
         | None \<Rightarrow> findNodeInTree rest targetId))"
  by pat_completeness auto
termination
  apply (relation "measure (\<lambda>(ns, t). size_list size ns)")
    apply auto
  subgoal for n rest cs by (cases n) auto
  done

subsection \<open>Reference notions for the tree utilities\<close>

text \<open>
  The nodes of a forest in depth-first pre-order, each with the number of edges from the
  forest's roots (roots are at level \<open>d\<close>).
\<close>

function preorder :: "int \<Rightarrow> 'a node list \<Rightarrow> ('a node \<times> int) list" where
  "preorder d [] = []"
| "preorder d (n # rest) =
    (n, d) # (case children n of None \<Rightarrow> [] | Some cs \<Rightarrow> preorder (d + 1) cs)
      @ preorder d rest"
  by pat_completeness auto
termination
  apply (relation "measure (\<lambda>(d, ns). size_list size ns)")
    apply auto
  subgoal for n rest cs by (cases n) auto
  done

text \<open>
  \<open>truncation_of r n\<close>: \<open>r\<close> is \<open>n\<close> with some children fields removed and nothing else
  changed: same id and fields at every retained node, and a retained children array
  has the original's length, position by position.
\<close>

fun truncation_of :: "'a node \<Rightarrow> 'a node \<Rightarrow> bool" where
  "truncation_of (Node i p ch) (Node j q ch') =
    (i = j \<and> p = q \<and>
     (case ch of
        None \<Rightarrow> True
      | Some cs \<Rightarrow>
         (case ch' of
            None \<Rightarrow> False
          | Some cs' \<Rightarrow> list_all2 truncation_of cs cs')))"

subsection \<open>Forests whose slots may be \<open>null\<close>\<close>

text \<open>
  An array of nodes can hold \<open>null\<close> and \<open>undefined\<close> elements: the tests of the id search
  \<open>findNodeById\<close> pass one, cast to \<open>SimplifiedNode[]\<close>, and require the search to skip
  them. To say what \<open>findNodeInTree\<close> does on such an array, the same function is read
  over slots that are either \<open>Null\<close> (for \<open>null\<close> and for \<open>undefined\<close>) or an object:
  \<open>node.id\<close> on a \<open>null\<close> or \<open>undefined\<close> slot throws a \<open>TypeError\<close>, which nothing in
  \<open>findNodeInTree\<close> catches.
\<close>

datatype 'a slot = Null | Obj string 'a "'a slot list option"

datatype error = TypeError

function findNodeInTree_raw :: "'a slot list \<Rightarrow> string \<Rightarrow> error + 'a slot option" where
  "findNodeInTree_raw [] targetId = Inr None"
| "findNodeInTree_raw (Null # rest) targetId = Inl TypeError"
| "findNodeInTree_raw (Obj i p ch # rest) targetId =
    (if i = targetId then Inr (Some (Obj i p ch))
     else case ch of
       None \<Rightarrow> findNodeInTree_raw rest targetId
     | Some cs \<Rightarrow>
        (case findNodeInTree_raw cs targetId of
           Inl e \<Rightarrow> Inl e
         | Inr (Some found) \<Rightarrow> Inr (Some found)
         | Inr None \<Rightarrow> findNodeInTree_raw rest targetId))"
  by pat_completeness auto
termination
  by (relation "measure (\<lambda>(ns, t). size_list size ns)") auto

text \<open>The slots of a forest in the order the search visits them.\<close>

function slots_preorder :: "'a slot list \<Rightarrow> 'a slot list" where
  "slots_preorder [] = []"
| "slots_preorder (Null # rest) = Null # slots_preorder rest"
| "slots_preorder (Obj i p ch # rest) =
    Obj i p ch # (case ch of None \<Rightarrow> [] | Some cs \<Rightarrow> slots_preorder cs)
      @ slots_preorder rest"
  by pat_completeness auto
termination
  by (relation "measure (\<lambda>ns. size_list size ns)") auto

fun is_match :: "string \<Rightarrow> 'a slot \<Rightarrow> bool" where
  "is_match targetId Null = False"
| "is_match targetId (Obj i p ch) = (i = targetId)"

text \<open>A well-typed forest seen as a forest of slots.\<close>

fun slot_of :: "'a node \<Rightarrow> 'a slot" where
  "slot_of (Node i p ch) = Obj i p (map_option (map slot_of) ch)"

text \<open>
  The array of the test \<open>should handle nodes that are null or undefined in the list\<close>;
  the fields of a node are its \<open>name\<close> and \<open>type\<close>.
\<close>

definition nodesWithNullOrUndefined :: "(string \<times> string) slot list" where
  "nodesWithNullOrUndefined =
    [Obj ''1'' (''Node 1'', ''FRAME'') None,
     Null,
     Null,
     Obj ''2'' (''Node 2'', ''GROUP'')
       (Some [Null, Obj ''2-1'' (''Node 2-1'', ''RECTANGLE'') None, Null])]"

section \<open>The eviction store (\<open>LRUCache\<close>)\<close>

text \<open>
  The store as the cache uses it. The class holds a \<open>Map\<close> from keys to list nodes and
  a doubly linked list of those nodes from \<open>head\<close> (most recently used) to \<open>tail\<close>.
  Here the \<open>Map\<close> is the association list \<open>cache\<close> in insertion order, which is the
  order \<open>Map.forEach\<close> visits, with a node's value kept with its key; the linked list is
  \<open>chain\<close>, the keys of its nodes from \<open>head\<close> to \<open>tail\<close>. Unlinking a node removes its
  key from \<open>chain\<close>, linking a node before \<open>head\<close> puts its key in front. The next
  section has the class with its node objects and pointers and relates the two.
\<close>

record ('k, 'v) LRUCache =
  capacity :: int
  cache :: "('k \<times> 'v) list"
  chain :: "'k list"

definition new_LRUCache :: "int \<Rightarrow> ('k, 'v) LRUCache" where
  "new_LRUCache n = \<lparr>capacity = n, cache = [], chain = []\<rparr>"

text \<open>\<open>Map.set\<close>: an existing key keeps its position, a new one goes last.\<close>

fun Map_set :: "'k \<Rightarrow> 'v \<Rightarrow> ('k \<times> 'v) list \<Rightarrow> ('k \<times> 'v) list" where
  "Map_set k v [] = [(k, v)]"
| "Map_set k v ((k', v') # m) = (if k' = k then (k, v) # m else (k', v') # Map_set k v m)"

definition Map_delete :: "'k \<Rightarrow> ('k \<times> 'v) list \<Rightarrow> ('k \<times> 'v) list" where
  "Map_delete k m = filter (\<lambda>e. fst e \<noteq> k) m"

definition removeNode :: "'k \<Rightarrow> 'k list \<Rightarrow> 'k list" where
  "removeNode k ch = remove1 k ch"

definition addToFront :: "'k \<Rightarrow> 'k list \<Rightarrow> 'k list" where
  "addToFront k ch = k # ch"

definition moveToFront :: "'k \<Rightarrow> 'k list \<Rightarrow> 'k list" where
  "moveToFront k ch =
    (case ch of
       h # _ \<Rightarrow> if h = k then ch else addToFront k (removeNode k ch)
     | [] \<Rightarrow> addToFront k (removeNode k ch))"

definition lru_get :: "'k \<Rightarrow> ('k, 'v) LRUCache \<Rightarrow> 'v option \<times> ('k, 'v) LRUCache" where
  "lru_get key c =
    (case map_of (cache c) key of
       None \<Rightarrow> (None, c)
     | Some v \<Rightarrow> (Some v, c\<lparr>chain := moveToFront key (chain c)\<rparr>))"

definition lru_put :: "'k \<Rightarrow> 'v \<Rightarrow> ('k, 'v) LRUCache \<Rightarrow> ('k, 'v) LRUCache" where
  "lru_put key v c =
    (case map_of (cache c) key of
       Some _ \<Rightarrow> c\<lparr>cache := Map_set key v (cache c), chain := moveToFront key (chain c)\<rparr>
     | None \<Rightarrow>
        (let c1 =
           (if capacity c \<le> int (length (cache c)) then
              (case chain c of
                 [] \<Rightarrow> c
               | _ # _ \<Rightarrow>
                   c\<lparr>cache := Map_delete (last (chain c)) (cache c),
                     chain := removeNode (last (chain c)) (chain c)\<rparr>)
            else c)
         in c1\<lparr>cache := Map_set key v (cache c1), chain := addToFront key (chain c1)\<rparr>))"

definition lru_delete :: "'k \<Rightarrow> ('k, 'v) LRUCache \<Rightarrow> bool \<times> ('k, 'v) LRUCache" where
  "lru_delete key c =
    (case map_of (cache c) key of
       None \<Rightarrow> (False, c)
     | Some _ \<Rightarrow>
        (True, c\<lparr>chain := removeNode key (chain c), cache := Map_delete key (cache c)\<rparr>))"

definition lru_clear :: "('k, 'v) LRUCache \<Rightarrow> ('k, 'v) LRUCache" where
  "lru_clear c = c\<lparr>cache := [], chain := []\<rparr>"

definition lru_size :: "('k, 'v) LRUCache \<Rightarrow> nat" where
  "lru_size c = length (cache c)"

definition lru_has :: "'k \<Rightarrow> ('k, 'v) LRUCache \<Rightarrow> bool" where
  "lru_has key c = (map_of (cache c) key \<noteq> None)"

text \<open>
  \<open>forEach\<close>: the callback sees each value and key in the \<open>Map\<close>'s order; what it
  writes to the variables it closes over is the state \<open>s\<close>.
\<close>

definition lru_forEach ::
  "('v \<Rightarrow> 'k \<Rightarrow> 's \<Rightarrow> 's) \<Rightarrow> ('k, 'v) LRUCache \<Rightarrow> 's \<Rightarrow> 's" where
  "lru_forEach callback c s = fold (\<lambda>(k, v). callback v k) (cache c) s"

subsection \<open>Runs of the store and recency\<close>

datatype ('k, 'v) op = Get 'k | Put 'k 'v | Delete 'k | Clear

fun step :: "('k, 'v) op \<Rightarrow> ('k, 'v) LRUCache \<Rightarrow> ('k, 'v) LRUCache" where
  "step (Get k) c = snd (lru_get k c)"
| "step (Put k v) c = lru_put k v c"
| "step (Delete k) c = snd (lru_delete k c)"
| "step Clear c = lru_clear c"

definition run :: "('k, 'v) op list \<Rightarrow> ('k, 'v) LRUCache \<Rightarrow> ('k, 'v) LRUCache" where
  "run ops c = fold step ops c"

text \<open>
  The key an operation touches: a \<open>put\<close> touches its key, a \<open>get\<close> touches its key
  when it hits. \<open>touch_times\<close> replays a run with a clock and records for each key the
  time of its last touch (0: never touched; the first operation runs at time 1).
\<close>

fun touched :: "('k, 'v) op \<Rightarrow> ('k, 'v) LRUCache \<Rightarrow> 'k option" where
  "touched (Get k) c = (if lru_has k c then Some k else None)"
| "touched (Put k v) c = Some k"
| "touched (Delete k) c = None"
| "touched Clear c = None"

fun touch_times ::
  "('k, 'v) op list \<Rightarrow> ('k, 'v) LRUCache \<Rightarrow> nat \<Rightarrow> ('k \<Rightarrow> nat) \<Rightarrow> ('k \<Rightarrow> nat)" where
  "touch_times [] c t T = T"
| "touch_times (x # xs) c t T =
    touch_times xs (step x c) (Suc t)
      (case touched x c of None \<Rightarrow> T | Some k \<Rightarrow> T(k := Suc t))"

definition last_touch :: "int \<Rightarrow> ('k, 'v) op list \<Rightarrow> 'k \<Rightarrow> nat" where
  "last_touch n ops = touch_times ops (new_LRUCache n) 0 (\<lambda>_. 0)"

text \<open>The key with the earliest last touch among \<open>ks\<close> (the first such, if several).\<close>

fun least_recently_touched :: "('k \<Rightarrow> nat) \<Rightarrow> 'k list \<Rightarrow> 'k option" where
  "least_recently_touched T [] = None"
| "least_recently_touched T (k # ks) =
    Some (fold (\<lambda>a b. if T a < T b then a else b) ks k)"

section \<open>The eviction store with its linked list\<close>

text \<open>
  The class \<open>LRUCache\<close> as it is written. A list node is an object with \<open>key\<close>, \<open>value\<close>,
  \<open>prev\<close> and \<open>next\<close>; the objects are in \<open>l_heap\<close>, a reference is an index into it, and
  \<open>null\<close> is \<open>None\<close>. \<open>l_cache\<close> is the \<open>Map\<close> from keys to node references, in
  insertion order; \<open>l_head\<close> and \<open>l_tail\<close> are the fields \<open>head\<close> and \<open>tail\<close>. The names
  carry a prefix because the view of the previous section has the plain ones. Every
  reference the store holds (in the \<open>Map\<close>, in \<open>head\<close> and \<open>tail\<close>, in a node's \<open>prev\<close> and
  \<open>next\<close>) is to an object of the heap; this is part of the invariant \<open>linked\<close> below,
  which every run from the empty store keeps.
\<close>

record ('k, 'v) LRUCacheNode =
  nkey :: 'k
  nvalue :: 'v
  nprev :: "nat option"
  nnext :: "nat option"

record ('k, 'v) LinkedLRU =
  l_capacity :: int
  l_cache :: "('k \<times> nat) list"
  l_heap :: "('k, 'v) LRUCacheNode list"
  l_head :: "nat option"
  l_tail :: "nat option"

definition new_LinkedLRU :: "int \<Rightarrow> ('k, 'v) LinkedLRU" where
  "new_LinkedLRU n = \<lparr>l_capacity = n, l_cache = [], l_heap = [], l_head = None, l_tail = None\<rparr>"

text \<open>\<open>assign r f\<close>: an assignment to a field of the node object at reference \<open>r\<close>.\<close>

definition assign ::
  "nat \<Rightarrow> (('k, 'v) LRUCacheNode \<Rightarrow> ('k, 'v) LRUCacheNode) \<Rightarrow> ('k, 'v) LinkedLRU \<Rightarrow> ('k, 'v) LinkedLRU" where
  "assign r f s = s\<lparr>l_heap := (l_heap s)[r := f (l_heap s ! r)]\<rparr>"

definition l_removeNode :: "nat \<Rightarrow> ('k, 'v) LinkedLRU \<Rightarrow> ('k, 'v) LinkedLRU" where
  "l_removeNode node s =
    (let s1 =
           (case nprev (l_heap s ! node) of
              Some p \<Rightarrow> assign p (\<lambda>x. x\<lparr>nnext := nnext (l_heap s ! node)\<rparr>) s
            | None \<Rightarrow> s\<lparr>l_head := nnext (l_heap s ! node)\<rparr>)
     in case nnext (l_heap s1 ! node) of
          Some x \<Rightarrow> assign x (\<lambda>y. y\<lparr>nprev := nprev (l_heap s1 ! node)\<rparr>) s1
        | None \<Rightarrow> s1\<lparr>l_tail := nprev (l_heap s1 ! node)\<rparr>)"

definition l_addToFront :: "nat \<Rightarrow> ('k, 'v) LinkedLRU \<Rightarrow> ('k, 'v) LinkedLRU" where
  "l_addToFront node s =
    (let s1 = assign node (\<lambda>x. x\<lparr>nnext := l_head s\<rparr>) s;
         s2 = assign node (\<lambda>x. x\<lparr>nprev := None\<rparr>) s1;
         s3 = (case l_head s2 of
                 Some h \<Rightarrow> assign h (\<lambda>x. x\<lparr>nprev := Some node\<rparr>) s2
               | None \<Rightarrow> s2);
         s4 = s3\<lparr>l_head := Some node\<rparr>
     in if l_tail s4 = None then s4\<lparr>l_tail := Some node\<rparr> else s4)"

definition l_moveToFront :: "nat \<Rightarrow> ('k, 'v) LinkedLRU \<Rightarrow> ('k, 'v) LinkedLRU" where
  "l_moveToFront node s =
    (if l_head s = Some node then s else l_addToFront node (l_removeNode node s))"

definition l_get :: "'k \<Rightarrow> ('k, 'v) LinkedLRU \<Rightarrow> 'v option \<times> ('k, 'v) LinkedLRU" where
  "l_get key s =
    (case map_of (l_cache s) key of
       None \<Rightarrow> (None, s)
     | Some node \<Rightarrow>
        (let s' = l_moveToFront node s in (Some (nvalue (l_heap s' ! node)), s')))"

definition l_put :: "'k \<Rightarrow> 'v \<Rightarrow> ('k, 'v) LinkedLRU \<Rightarrow> ('k, 'v) LinkedLRU" where
  "l_put key v s =
    (case map_of (l_cache s) key of
       Some existingNode \<Rightarrow>
         l_moveToFront existingNode (assign existingNode (\<lambda>x. x\<lparr>nvalue := v\<rparr>) s)
     | None \<Rightarrow>
        (let newNode = length (l_heap s);
             s1 = s\<lparr>l_heap := l_heap s @ [\<lparr>nkey = key, nvalue = v, nprev = None, nnext = None\<rparr>]\<rparr>;
             s2 =
               (if l_capacity s1 \<le> int (length (l_cache s1)) then
                  (case l_tail s1 of
                     Some t \<Rightarrow>
                       l_removeNode t
                         (s1\<lparr>l_cache := Map_delete (nkey (l_heap s1 ! t)) (l_cache s1)\<rparr>)
                   | None \<Rightarrow> s1)
                else s1);
             s3 = s2\<lparr>l_cache := Map_set key newNode (l_cache s2)\<rparr>
         in l_addToFront newNode s3))"

definition l_delete :: "'k \<Rightarrow> ('k, 'v) LinkedLRU \<Rightarrow> bool \<times> ('k, 'v) LinkedLRU" where
  "l_delete key s =
    (case map_of (l_cache s) key of
       None \<Rightarrow> (False, s)
     | Some node \<Rightarrow>
        (let s1 = l_removeNode node s
         in (True, s1\<lparr>l_cache := Map_delete key (l_cache s1)\<rparr>)))"

definition l_clear :: "('k, 'v) LinkedLRU \<Rightarrow> ('k, 'v) LinkedLRU" where
  "l_clear s = s\<lparr>l_cache := [], l_head := None, l_tail := None\<rparr>"

definition l_size :: "('k, 'v) LinkedLRU \<Rightarrow> nat" where
  "l_size s = length (l_cache s)"

definition l_has :: "'k \<Rightarrow> ('k, 'v) LinkedLRU \<Rightarrow> bool" where
  "l_has key s = (map_of (l_cache s) key \<noteq> None)"

definition l_forEach ::
  "('v \<Rightarrow> 'k \<Rightarrow> 'st \<Rightarrow> 'st) \<Rightarrow> ('k, 'v) LinkedLRU \<Rightarrow> 'st \<Rightarrow> 'st" where
  "l_forEach callback s st =
    fold (\<lambda>(k, node). callback (nvalue (l_heap s ! node)) k) (l_cache s) st"

text \<open>
  \<open>walk\<close> follows the \<open>next\<close> pointers from a reference, for at most as many steps as
  there are objects. \<open>view\<close> is the store seen from outside: the \<open>Map\<close> with each node's
  value, and the keys of the nodes from \<open>head\<close> on.
\<close>

fun walk :: "('k, 'v) LRUCacheNode list \<Rightarrow> nat \<Rightarrow> nat option \<Rightarrow> nat list" where
  "walk h 0 r = []"
| "walk h (Suc fuel) None = []"
| "walk h (Suc fuel) (Some a) = a # walk h fuel (nnext (h ! a))"

definition view :: "('k, 'v) LinkedLRU \<Rightarrow> ('k, 'v) LRUCache" where
  "view s =
    \<lparr>capacity = l_capacity s,
     cache = map (\<lambda>(k, node). (k, nvalue (l_heap s ! node))) (l_cache s),
     chain = map (\<lambda>node. nkey (l_heap s ! node)) (walk (l_heap s) (length (l_heap s)) (l_head s))\<rparr>"

text \<open>Runs and last touches, as for the view.\<close>

fun l_step :: "('k, 'v) op \<Rightarrow> ('k, 'v) LinkedLRU \<Rightarrow> ('k, 'v) LinkedLRU" where
  "l_step (Get k) s = snd (l_get k s)"
| "l_step (Put k v) s = l_put k v s"
| "l_step (Delete k) s = snd (l_delete k s)"
| "l_step Clear s = l_clear s"

definition l_run :: "('k, 'v) op list \<Rightarrow> ('k, 'v) LinkedLRU \<Rightarrow> ('k, 'v) LinkedLRU" where
  "l_run ops s = fold l_step ops s"

fun l_touched :: "('k, 'v) op \<Rightarrow> ('k, 'v) LinkedLRU \<Rightarrow> 'k option" where
  "l_touched (Get k) s = (if l_has k s then Some k else None)"
| "l_touched (Put k v) s = Some k"
| "l_touched (Delete k) s = None"
| "l_touched Clear s = None"

fun l_touch_times ::
  "('k, 'v) op list \<Rightarrow> ('k, 'v) LinkedLRU \<Rightarrow> nat \<Rightarrow> ('k \<Rightarrow> nat) \<Rightarrow> ('k \<Rightarrow> nat)" where
  "l_touch_times [] s t T = T"
| "l_touch_times (x # xs) s t T =
    l_touch_times xs (l_step x s) (Suc t)
      (case l_touched x s of None \<Rightarrow> T | Some k \<Rightarrow> T(k := Suc t))"

definition l_last_touch :: "int \<Rightarrow> ('k, 'v) op list \<Rightarrow> 'k \<Rightarrow> nat" where
  "l_last_touch n ops = l_touch_times ops (new_LinkedLRU n) 0 (\<lambda>_. 0)"

text \<open>
  \<open>seg h p xs q\<close>: the nodes \<open>xs\<close> are linked in this order in \<open>h\<close>, the first one's
  \<open>prev\<close> is \<open>p\<close> and the last one's \<open>next\<close> is \<open>q\<close>. \<open>dll\<close>: the list from \<open>head\<close> to
  \<open>tail\<close> is \<open>xs\<close>. \<open>linked\<close>: moreover the \<open>Map\<close> has each key once, its nodes are
  exactly those of the list, and each node carries the key it is stored under.
\<close>

definition firsto :: "nat list \<Rightarrow> nat option \<Rightarrow> nat option" where
  "firsto xs q = (case xs of [] \<Rightarrow> q | y # _ \<Rightarrow> Some y)"

definition lasto :: "nat list \<Rightarrow> nat option \<Rightarrow> nat option" where
  "lasto xs p = (if xs = [] then p else Some (last xs))"

fun seg :: "('k, 'v) LRUCacheNode list \<Rightarrow> nat option \<Rightarrow> nat list \<Rightarrow> nat option \<Rightarrow> bool" where
  "seg h p [] q = True"
| "seg h p (x # xs) q =
    (x < length h \<and> nprev (h ! x) = p \<and> nnext (h ! x) = firsto xs q
     \<and> seg h (Some x) xs q)"

definition dll :: "('k, 'v) LinkedLRU \<Rightarrow> nat list \<Rightarrow> bool" where
  "dll s xs =
    (distinct xs \<and> seg (l_heap s) None xs None
     \<and> l_head s = firsto xs None \<and> l_tail s = lasto xs None)"

definition linked :: "('k, 'v) LinkedLRU \<Rightarrow> nat list \<Rightarrow> bool" where
  "linked s xs =
    (dll s xs \<and> distinct (map fst (l_cache s)) \<and> set xs = set (map snd (l_cache s))
     \<and> (\<forall>e\<in>set (l_cache s). nkey (l_heap s ! snd e) = fst e))"

text \<open>
  The heap after \<open>removeNode\<close> of the node \<open>x\<close> between \<open>as\<close> and \<open>bs\<close>, and after
  \<open>addToFront\<close> of \<open>x\<close> before \<open>xs\<close>; the view's \<open>Map\<close> entries.
\<close>

definition unlink ::
  "nat list \<Rightarrow> nat \<Rightarrow> nat list \<Rightarrow> ('k, 'v) LRUCacheNode list \<Rightarrow> ('k, 'v) LRUCacheNode list" where
  "unlink as x bs h =
    (let h1 = (if as = [] then h else h[last as := (h ! last as)\<lparr>nnext := firsto bs None\<rparr>])
     in if bs = [] then h1 else h1[hd bs := (h1 ! hd bs)\<lparr>nprev := lasto as None\<rparr>])"

definition link ::
  "nat \<Rightarrow> nat list \<Rightarrow> ('k, 'v) LRUCacheNode list \<Rightarrow> ('k, 'v) LRUCacheNode list" where
  "link x xs h =
    (let h1 = h[x := (h ! x)\<lparr>nnext := firsto xs None\<rparr>];
         h2 = h1[x := (h1 ! x)\<lparr>nprev := None\<rparr>]
     in if xs = [] then h2 else h2[hd xs := (h2 ! hd xs)\<lparr>nprev := Some x\<rparr>])"

definition entries :: "('k, 'v) LinkedLRU \<Rightarrow> ('k \<times> 'v) list" where
  "entries s = map (\<lambda>(k, node). (k, nvalue (l_heap s ! node))) (l_cache s)"

section \<open>The depth-aware cache (\<open>ParseDataCache\<close>)\<close>

text \<open>
  A \<open>SimplifiedDesign\<close> has the root nodes and the file's metadata; the tables
  \<open>components\<close>, \<open>componentSets\<close> and \<open>globalVars\<close> are opaque here. A string that may be
  \<open>undefined\<close> is a \<open>string option\<close>; \<open>truthy\<close> is JavaScript's test of such a value in a
  condition: \<open>undefined\<close> and the empty string are false.
\<close>

record ('a, 'm) SimplifiedDesign =
  name :: string
  lastModified :: string
  thumbnailUrl :: string
  nodes :: "'a node list"
  components :: 'm
  componentSets :: 'm
  globalVars :: 'm

record ('a, 'm) CacheItem =
  data :: "('a, 'm) SimplifiedDesign"
  lastTouchedAt :: "string option"

definition truthy :: "string option \<Rightarrow> bool" where
  "truthy s = (case s of None \<Rightarrow> False | Some t \<Rightarrow> t \<noteq> [])"

text \<open>
  \<open>getFileMeta\<close> is the remote call. It acts on the world outside the cache, \<open>'w\<close>, and
  either rejects (or resolves to something whose field access throws) or resolves to a
  response whose \<open>last_touched_at\<close> may be missing.
\<close>

datatype fileMeta = Rejected | Resolved (last_touched_at: "string option")

record 'w CacheValidationParams =
  paramsFileKey :: string
  getFileMeta :: "'w \<Rightarrow> fileMeta \<times> 'w"

type_synonym ('a, 'm) ParseDataCache = "(string, ('a, 'm) CacheItem) LRUCache"

definition new_ParseDataCache :: "int \<Rightarrow> ('a, 'm) ParseDataCache" where
  "new_ParseDataCache n = new_LRUCache n"

subsection \<open>Cache keys\<close>

fun startsWith :: "string \<Rightarrow> string \<Rightarrow> bool" where
  "startsWith s [] = True"
| "startsWith [] (p # ps) = False"
| "startsWith (c # cs) (p # ps) = (c = p \<and> startsWith cs ps)"

text \<open>\<open>split_acc sep cur s\<close>: \<open>s.split(sep)\<close>, with \<open>cur\<close> the part being read, reversed.\<close>

fun split_acc :: "char \<Rightarrow> string \<Rightarrow> string \<Rightarrow> string list" where
  "split_acc sep cur [] = [rev cur]"
| "split_acc sep cur (c # cs) =
    (if c = sep then rev cur # split_acc sep [] cs else split_acc sep (c # cur) cs)"

definition split :: "char \<Rightarrow> string \<Rightarrow> string list" where
  "split sep s = split_acc sep [] s"

text \<open>
  \<open>parseInt(s, 10)\<close>: leading white space is skipped, then an optional sign, then the
  longest run of decimal digits; no digit there gives \<open>NaN\<close>, here \<open>None\<close>. Characters
  are bytes, so the white space is ASCII's (tab, line feed, vertical tab, form feed,
  carriage return, space), and the value is the exact integer, where a JavaScript
  number rounds beyond \<open>2^53\<close>.
\<close>

definition isWhiteSpace :: "char \<Rightarrow> bool" where
  "isWhiteSpace c = (c \<in> set [CHR 0x09, CHR 0x0A, CHR 0x0B, CHR 0x0C, CHR 0x0D, CHR '' ''])"

definition isDigit :: "char \<Rightarrow> bool" where
  "isDigit c = (c \<in> set ''0123456789'')"

definition digitVal :: "char \<Rightarrow> int" where
  "digitVal c = int (of_char c) - 48"

definition digitsVal :: "string \<Rightarrow> int" where
  "digitsVal ds = foldl (\<lambda>acc c. 10 * acc + digitVal c) 0 ds"

definition parseInt :: "string \<Rightarrow> int option" where
  "parseInt s =
    (let t = dropWhile isWhiteSpace s;
         neg = (case t of c # _ \<Rightarrow> c = CHR ''-'' | [] \<Rightarrow> False);
         u = (case t of c # r \<Rightarrow> if c = CHR ''+'' \<or> c = CHR ''-'' then r else t | [] \<Rightarrow> t);
         ds = takeWhile isDigit u
     in if ds = [] then None
        else Some (if neg then - digitsVal ds else digitsVal ds))"

text \<open>
  \<open>getCacheKeyDepthLimit\<close>: \<open>parts[parts.length - 1]\<close> of an empty array would be
  \<open>undefined\<close>, which \<open>parseInt\<close> turns into \<open>NaN\<close>.
\<close>

definition getCacheKeyDepthLimit :: "string \<Rightarrow> int option" where
  "getCacheKeyDepthLimit cacheKey =
    (let parts = split CHR '':'' cacheKey
     in case parts of [] \<Rightarrow> None | _ # _ \<Rightarrow> parseInt (last parts))"

subsection \<open>Depth checks and the scan\<close>

text \<open>\<open>Math.max\<close> of an argument list; \<open>None\<close> is \<open>-Infinity\<close>, its value on no argument.\<close>

fun Math_max :: "int list \<Rightarrow> int option" where
  "Math_max [] = None"
| "Math_max (x # xs) = Some (fold max xs x)"

text \<open>
  \<open>checkNodeDepthSatisfiesRequirement\<close>; \<open>-Infinity >= requiredDepth\<close> is false.
\<close>

definition checkNodeDepthSatisfiesRequirement ::
  "('a, 'm) SimplifiedDesign \<Rightarrow> string \<Rightarrow> int option \<Rightarrow> bool" where
  "checkNodeDepthSatisfiesRequirement cacheData targetNodeId requiredDepth =
    (case requiredDepth of
       None \<Rightarrow> True
     | Some r \<Rightarrow>
        (case findNodeInTree (nodes cacheData) targetNodeId of
           None \<Rightarrow> False
         | Some targetNode \<Rightarrow>
            (case Math_max (map getNodeDepth (nodes cacheData)) of
               None \<Rightarrow> False
             | Some overallCacheDepth \<Rightarrow> r \<le> overallCacheDepth)
            \<or> r \<le> getNodeDepth targetNode))"

text \<open>
  The callback of the \<open>forEach\<close> in \<open>findNodeInCache\<close>. Its state is the variable
  \<open>result\<close>; each \<open>return\<close> of the callback leaves \<open>result\<close> as it is.
\<close>

definition findNodeInCache_visit ::
  "string \<Rightarrow> string \<Rightarrow> int option \<Rightarrow> ('a, 'm) CacheItem \<Rightarrow> string \<Rightarrow>
   ('a node \<times> ('a, 'm) CacheItem) option \<Rightarrow> ('a node \<times> ('a, 'm) CacheItem) option" where
  "findNodeInCache_visit fileKey nodeId requiredDepth cacheItem cacheKey result =
    (if result \<noteq> None then result
     else if startsWith cacheKey (fileKey @ '':'') then
       (let cacheDepthLimit = getCacheKeyDepthLimit cacheKey;
            skip =
              (case (requiredDepth, cacheDepthLimit) of
                 (None, Some lim) \<Rightarrow>
                   (case findNodeInTree (nodes (data cacheItem)) nodeId of
                      Some targetNode \<Rightarrow>
                        (let nodeDepthFromRoot =
                               getNodeDepthFromRoot (nodes (data cacheItem)) nodeId 0;
                             nodeSubtreeDepth = getNodeDepth targetNode;
                             totalDepthNeeded = nodeDepthFromRoot + nodeSubtreeDepth
                         in lim \<le> totalDepthNeeded)
                    | None \<Rightarrow> True)
               | _ \<Rightarrow> False)
        in if skip then result
           else if checkNodeDepthSatisfiesRequirement (data cacheItem) nodeId requiredDepth
           then
             (case findNodeInTree (nodes (data cacheItem)) nodeId of
                Some node \<Rightarrow>
                  (let finalNode =
                     (case requiredDepth of
                        Some r \<Rightarrow> if 0 \<le> r then limitNodeDepth node r else node
                      | None \<Rightarrow> node)
                   in Some (finalNode, cacheItem))
              | None \<Rightarrow> result)
           else result)
     else result)"

definition findNodeInCache ::
  "string \<Rightarrow> string \<Rightarrow> int option \<Rightarrow> ('a, 'm) ParseDataCache \<Rightarrow>
   ('a node \<times> ('a, 'm) CacheItem) option" where
  "findNodeInCache fileKey nodeId requiredDepth c =
    lru_forEach (findNodeInCache_visit fileKey nodeId requiredDepth) c None"

subsection \<open>Freshness\<close>

definition validateCacheItem ::
  "('a, 'm) CacheItem \<Rightarrow> 'w CacheValidationParams \<Rightarrow> 'w \<Rightarrow> bool \<times> 'w" where
  "validateCacheItem cacheItem validationParams w =
    (if \<not> truthy (lastTouchedAt cacheItem) then (True, w)
     else
       (case getFileMeta validationParams w of
          (Rejected, w') \<Rightarrow> (True, w')
        | (Resolved currentLastTouchedAt, w') \<Rightarrow>
            if truthy currentLastTouchedAt
               \<and> currentLastTouchedAt \<noteq> lastTouchedAt cacheItem
            then (False, w')
            else (True, w')))"

subsection \<open>Public operations\<close>

text \<open>
  Every operation takes the cache and the world and returns its result with the new
  cache and world. An operation runs here without another one interleaved at its
  \<open>await\<close>.
\<close>

definition clearFileCache :: "string \<Rightarrow> ('a, 'm) ParseDataCache \<Rightarrow> ('a, 'm) ParseDataCache" where
  "clearFileCache fileKey c =
    (let keysToDelete =
           lru_forEach
             (\<lambda>_ cacheKey ks. if startsWith cacheKey (fileKey @ '':'') then ks @ [cacheKey] else ks)
             c []
     in fold (\<lambda>key c'. snd (lru_delete key c')) keysToDelete c)"

definition clearAllCache :: "('a, 'm) ParseDataCache \<Rightarrow> ('a, 'm) ParseDataCache" where
  "clearAllCache c = lru_clear c"

definition has :: "string \<Rightarrow> ('a, 'm) ParseDataCache \<Rightarrow> bool" where
  "has cacheKey c = lru_has cacheKey c"

definition put ::
  "string \<Rightarrow> ('a, 'm) SimplifiedDesign \<Rightarrow> string option \<Rightarrow> ('a, 'm) ParseDataCache \<Rightarrow>
   ('a, 'm) ParseDataCache" where
  "put cacheKey d touchedAt c = lru_put cacheKey \<lparr>data = d, lastTouchedAt = touchedAt\<rparr> c"

definition get ::
  "string \<Rightarrow> 'w CacheValidationParams option \<Rightarrow> ('a, 'm) ParseDataCache \<Rightarrow> 'w \<Rightarrow>
   ('a, 'm) SimplifiedDesign option \<times> ('a, 'm) ParseDataCache \<times> 'w" where
  "get cacheKey validationParams c w =
    (case lru_get cacheKey c of
       (None, c') \<Rightarrow> (None, c', w)
     | (Some cacheItem, c') \<Rightarrow>
        (case validationParams of
           Some vp \<Rightarrow>
             (case validateCacheItem cacheItem vp w of
                (isValid, w') \<Rightarrow>
                  if \<not> isValid then (None, snd (lru_delete cacheKey c'), w')
                  else (Some (data cacheItem), c', w'))
         | None \<Rightarrow> (Some (data cacheItem), c', w)))"

definition findNodeData ::
  "string \<Rightarrow> string \<Rightarrow> 'w CacheValidationParams option \<Rightarrow> int option \<Rightarrow>
   ('a, 'm) ParseDataCache \<Rightarrow> 'w \<Rightarrow> 'a node option \<times> ('a, 'm) ParseDataCache \<times> 'w" where
  "findNodeData fileKey nodeId validationParams requiredDepth c w =
    (case findNodeInCache fileKey nodeId requiredDepth c of
       None \<Rightarrow> (None, c, w)
     | Some (node, cacheItem) \<Rightarrow>
        (case validationParams of
           Some vp \<Rightarrow>
             (case validateCacheItem cacheItem vp w of
                (isValid, w') \<Rightarrow>
                  if \<not> isValid then (None, clearFileCache fileKey c, w')
                  else (Some node, c, w'))
         | None \<Rightarrow> (Some node, c, w)))"

record ('a, 'm) MultipleNodes =
  cachedNodes :: "'a node list"
  missingNodeIds :: "string list"
  sourceDesign :: "('a, 'm) SimplifiedDesign option"

text \<open>
  The \<open>for\<close> loop of \<open>findMultipleNodes\<close>. After a hit with \<open>sourceDesign\<close> still
  \<open>null\<close>, a second \<open>forEach\<close> assigns \<open>sourceDesign\<close> at every entry of the file whose
  snapshot has the node, so the last such entry stays.
\<close>

fun findMultipleNodes_loop ::
  "string \<Rightarrow> 'w CacheValidationParams option \<Rightarrow> int option \<Rightarrow> string list \<Rightarrow>
   ('a, 'm) MultipleNodes \<Rightarrow> ('a, 'm) ParseDataCache \<Rightarrow> 'w \<Rightarrow>
   ('a, 'm) MultipleNodes \<times> ('a, 'm) ParseDataCache \<times> 'w" where
  "findMultipleNodes_loop fileKey validationParams requiredDepth [] acc c w = (acc, c, w)"
| "findMultipleNodes_loop fileKey validationParams requiredDepth (nodeId # nodeIds) acc c w =
    (case findNodeData fileKey nodeId validationParams requiredDepth c w of
       (Some cachedNode, c', w') \<Rightarrow>
         findMultipleNodes_loop fileKey validationParams requiredDepth nodeIds
           (acc\<lparr>cachedNodes := cachedNodes acc @ [cachedNode],
                sourceDesign :=
                  (if sourceDesign acc = None then
                     lru_forEach
                       (\<lambda>cacheItem cacheKey sd.
                          if startsWith cacheKey (fileKey @ '':'')
                             \<and> findNodeInTree (nodes (data cacheItem)) nodeId \<noteq> None
                          then Some (data cacheItem) else sd)
                       c' (sourceDesign acc)
                   else sourceDesign acc)\<rparr>)
           c' w'
     | (None, c', w') \<Rightarrow>
         findMultipleNodes_loop fileKey validationParams requiredDepth nodeIds
           (acc\<lparr>missingNodeIds := missingNodeIds acc @ [nodeId]\<rparr>) c' w')"

definition findMultipleNodes ::
  "string \<Rightarrow> string list \<Rightarrow> 'w CacheValidationParams option \<Rightarrow> int option \<Rightarrow>
   ('a, 'm) ParseDataCache \<Rightarrow> 'w \<Rightarrow>
   ('a, 'm) MultipleNodes \<times> ('a, 'm) ParseDataCache \<times> 'w" where
  "findMultipleNodes fileKey nodeIds validationParams requiredDepth c w =
    findMultipleNodes_loop fileKey validationParams requiredDepth nodeIds
      \<lparr>cachedNodes = [], missingNodeIds = [], sourceDesign = None\<rparr> c w"

subsection \<open>Reference notion: the eligible entry\<close>

text \<open>
  \<open>eligible nodeId requiredDepth (cacheKey, cacheItem)\<close>, as the specification words it.
  With no required depth, an entry whose key has a depth tag \<open>lim\<close> is eligible when the
  node is in its snapshot and \<open>rootDepth + subtreeDepth < lim\<close>, and an entry with no
  tag when the node is in its snapshot. With a required depth \<open>r\<close>, an entry is eligible
  when the node is in its snapshot and either some root's depth is at least \<open>r\<close> or the
  node's own depth is.
\<close>

definition eligible :: "string \<Rightarrow> int option \<Rightarrow> string \<times> ('a, 'm) CacheItem \<Rightarrow> bool" where
  "eligible nodeId requiredDepth e =
    (case findNodeInTree (nodes (data (snd e))) nodeId of
       None \<Rightarrow> False
     | Some node \<Rightarrow>
        (case requiredDepth of
           None \<Rightarrow>
             (case getCacheKeyDepthLimit (fst e) of
                None \<Rightarrow> True
              | Some lim \<Rightarrow>
                  getNodeDepthFromRoot (nodes (data (snd e))) nodeId 0 + getNodeDepth node < lim)
         | Some r \<Rightarrow>
             list_ex (\<lambda>root. r \<le> getNodeDepth root) (nodes (data (snd e)))
             \<or> r \<le> getNodeDepth node))"

definition candidate :: "string \<Rightarrow> string \<Rightarrow> int option \<Rightarrow> string \<times> ('a, 'm) CacheItem \<Rightarrow> bool" where
  "candidate fileKey nodeId requiredDepth e =
    (startsWith (fst e) (fileKey @ '':'') \<and> eligible nodeId requiredDepth e)"

subsection \<open>Reference notions for the cache\<close>

text \<open>
  The value of \<open>finalNode\<close> in \<open>findNodeInCache\<close>: the depth-limited copy for a required
  depth \<open>\<ge> 0\<close>, the stored node otherwise.
\<close>

definition finalNode :: "int option \<Rightarrow> 'a node \<Rightarrow> 'a node" where
  "finalNode requiredDepth node =
    (case requiredDepth of
       Some r \<Rightarrow> if 0 \<le> r then limitNodeDepth node r else node
     | None \<Rightarrow> node)"

text \<open>
  The representation invariant of the store: the \<open>Map\<close> has each key once, and the
  linked list holds exactly the \<open>Map\<close>'s keys, each once.
\<close>

definition lru_inv :: "('k, 'v) LRUCache \<Rightarrow> bool" where
  "lru_inv c =
    (distinct (map fst (cache c)) \<and> distinct (chain c)
     \<and> set (chain c) = set (map fst (cache c)))"

text \<open>
  \<open>bounded\<close>: the store holds at most \<open>capacity\<close> entries, or one entry when the capacity
  is below one. \<open>recent c T t\<close>: the linked list is in strictly decreasing order of last
  touch, from \<open>head\<close> to \<open>tail\<close>, and no touch is later than the clock \<open>t\<close>.
\<close>

definition bounded :: "('k, 'v) LRUCache \<Rightarrow> bool" where
  "bounded c = (int (length (cache c)) \<le> max (capacity c) 1)"

definition recent :: "('k, 'v) LRUCache \<Rightarrow> ('k \<Rightarrow> nat) \<Rightarrow> nat \<Rightarrow> bool" where
  "recent c T t = (sorted_wrt (\<lambda>a b. T b < T a) (chain c) \<and> (\<forall>k\<in>set (chain c). T k \<le> t))"

section \<open>Example data\<close>

text \<open>
  The fixtures of the repository's cache tests, with a node's type tag as its other
  fields: a three-level tree, its one-level version, a tree cached under a depth tag,
  and \<open>getFileMeta\<close> mocks that count their calls in the world.
\<close>

definition leaf :: "string \<Rightarrow> string \<Rightarrow> string node" where
  "leaf i ty = Node i ty None"

definition mockNode1 :: "string node" where
  "mockNode1 =
    Node ''node-1'' ''FRAME''
      (Some [Node ''child-1'' ''RECTANGLE''
               (Some [leaf ''grandchild-1'' ''TEXT'', leaf ''grandchild-2'' ''VECTOR'']),
             leaf ''child-2'' ''TEXT''])"

definition mockShallowNode1 :: "string node" where
  "mockShallowNode1 =
    Node ''node-1'' ''FRAME''
      (Some [leaf ''child-1'' ''RECTANGLE'', leaf ''child-2'' ''TEXT''])"

definition mockNode3 :: "string node" where
  "mockNode3 = leaf ''node-3'' ''INSTANCE''"

definition parentWithSufficientDepth :: "string node" where
  "parentWithSufficientDepth =
    Node ''sufficient-parent'' ''FRAME''
      (Some [Node ''sufficient-child-deep'' ''RECTANGLE''
               (Some [leaf ''deep-grandchild'' ''TEXT'']),
             Node ''sufficient-child-at-limit'' ''ELLIPSE''
               (Some [Node ''deep-grandchild-1'' ''RECTANGLE''
                        (Some [leaf ''deep-grandchild-2'' ''RECTANGLE''])])])"

definition mockDesign :: "string \<Rightarrow> string node list \<Rightarrow> (string, unit) SimplifiedDesign" where
  "mockDesign nm ns =
    \<lparr>name = nm, lastModified = ''2023-01-01T10:00:00Z'',
     thumbnailUrl = ''https://example.com/thumb.png'', nodes = ns,
     components = (), componentSets = (), globalVars = ()\<rparr>"

definition mockMeta :: "string option \<Rightarrow> nat CacheValidationParams" where
  "mockMeta touchedAt =
    \<lparr>paramsFileKey = ''file1'', getFileMeta = (\<lambda>calls. (Resolved touchedAt, Suc calls))\<rparr>"

definition mockMetaError :: "nat CacheValidationParams" where
  "mockMetaError = \<lparr>paramsFileKey = ''file1'', getFileMeta = (\<lambda>calls. (Rejected, Suc calls))\<rparr>"

definition depthCache :: "(string, unit) ParseDataCache" where
  "depthCache =
    put ''file1:node-1:1'' (mockDesign ''shallow'' [mockShallowNode1]) (Some ''2023-01-01T10:00:00Z'')
      (put ''file1:node-1:default'' (mockDesign ''deep'' [mockNode1]) (Some ''2023-01-01T10:00:00Z'')
        (new_ParseDataCache 10))"

definition taggedCache :: "(string, unit) ParseDataCache" where
  "taggedCache =
    put ''file1:sufficient-parent:3'' (mockDesign ''tagged'' [parentWithSufficientDepth])
      (Some ''2023-01-01T10:00:00Z'') (new_ParseDataCache 10)"

definition filesCache :: "(string, unit) ParseDataCache" where
  "filesCache =
    put ''file2:node-3:default'' (mockDesign ''other'' [mockNode3]) (Some ''2023-01-01T10:00:00Z'')
      depthCache"

definition mockNode2 :: "string node" where
  "mockNode2 = Node ''node-2'' ''COMPONENT'' (Some [leaf ''child-3'' ''RECTANGLE''])"

definition multiCache :: "(string, unit) ParseDataCache" where
  "multiCache =
    put ''file1:multi:default'' (mockDesign ''Multi Node Design'' [mockNode1, mockNode2, mockNode3])
      (Some ''2023-01-01T10:00:00Z'')
      (put ''file1:node-2:default'' (mockDesign ''Test Design 2'' [mockNode2])
        (Some ''2023-01-01T10:00:00Z'')
        (put ''file1:node-1:default'' (mockDesign ''Test Design 1'' [mockNode1])
          (Some ''2023-01-01T10:00:00Z'') (new_ParseDataCache 10)))"

section \<open>Node objects and their identity\<close>

text \<open>
  Whether a returned node is the stored object or a copy of it, and what a copy shares
  with the original, are questions about references. Here a node is an object in a
  store and a reference to it is its index in the list \<open>objects\<close> of the node objects
  allocated so far; a new object goes at the end. An object has its \<open>id\<close>, its other own
  properties by name, and its \<open>children\<close> array, which holds references. The value of a
  property is either a primitive (a string, a number, a boolean) or a reference to an
  object (an array such as \<open>componentProperties\<close>, a record such as \<open>boundingBox\<close>). Such
  an object is a cell of the second list of the store, \<open>cells\<close>: its content is what a
  reader finds in it, and a change made in place through any reference to it replaces
  the content. A reference outside the store does not exist in JavaScript; the
  functions answer \<open>None\<close> for one.
\<close>

datatype 'a val = Prim 'a | Ref nat

record 'a object =
  oid :: string
  oprops :: "(string \<times> 'a val) list"
  ochildren :: "nat list option"

record 'a store =
  objects :: "'a object list"
  cells :: "'a list"

text \<open>\<open>extend s new\<close>: the store \<open>s\<close> with the node objects \<open>new\<close> allocated after its own.\<close>

definition extend :: "'a store \<Rightarrow> 'a object list \<Rightarrow> 'a store" where
  "extend s new = s\<lparr>objects := objects s @ new\<rparr>"

definition alloc :: "'a object \<Rightarrow> 'a store \<Rightarrow> 'a store \<times> nat" where
  "alloc obj s = (extend s [obj], length (objects s))"

text \<open>
  \<open>limitNodeDepth\<close> on references: the rest pattern and the spread each make a new
  object with the own properties of \<open>node\<close>; the copy is shallow, a property that is a
  reference is copied as the reference. \<open>return node\<close> returns the reference it was
  given; \<open>map\<close> makes a new array from the results of the calls on the children, left
  to right.
\<close>

function limitNodeDepth_ref :: "'a store \<Rightarrow> nat \<Rightarrow> int \<Rightarrow> ('a store \<times> nat) option"
  and limitChildren_ref :: "'a store \<Rightarrow> nat list \<Rightarrow> int \<Rightarrow> ('a store \<times> nat list) option"
where
  "limitNodeDepth_ref s node maxDepth =
    (if length (objects s) \<le> node then None
     else if maxDepth \<le> 0 then Some (alloc ((objects s ! node)\<lparr>ochildren := None\<rparr>) s)
     else case ochildren (objects s ! node) of
       None \<Rightarrow> Some (s, node)
     | Some cs \<Rightarrow>
        if cs = [] then Some (s, node)
        else (case limitChildren_ref s cs (maxDepth - 1) of
                None \<Rightarrow> None
              | Some (s', cs') \<Rightarrow> Some (alloc ((objects s ! node)\<lparr>ochildren := Some cs'\<rparr>) s')))"
| "limitChildren_ref s [] maxDepth = Some (s, [])"
| "limitChildren_ref s (child # cs) maxDepth =
    (case limitNodeDepth_ref s child maxDepth of
       None \<Rightarrow> None
     | Some (s1, child') \<Rightarrow>
        (case limitChildren_ref s1 cs maxDepth of
           None \<Rightarrow> None
         | Some (s2, cs') \<Rightarrow> Some (s2, child' # cs')))"
  by pat_completeness auto
termination
  by (relation "measures
        [\<lambda>x. case x of Inl (s, n, d) \<Rightarrow> nat d | Inr (s, cs, d) \<Rightarrow> nat d,
         \<lambda>x. case x of Inl (s, n, d) \<Rightarrow> 0 | Inr (s, cs, d) \<Rightarrow> Suc (length cs)]")
     auto

text \<open>
  The value of \<open>finalNode\<close> in \<open>findNodeInCache\<close>, on references: \<open>node\<close> is the
  reference \<open>findNodeInTree\<close> returned, an object of the stored snapshot.
\<close>

definition finalNode_ref :: "'a store \<Rightarrow> nat \<Rightarrow> int option \<Rightarrow> ('a store \<times> nat) option" where
  "finalNode_ref s node requiredDepth =
    (case requiredDepth of
       Some r \<Rightarrow> if 0 \<le> r then limitNodeDepth_ref s node r else Some (s, node)
     | None \<Rightarrow> Some (s, node))"

text \<open>
  What a caller can do to a node it was handed. \<open>assign_own a obj\<close>: assignments to
  own properties of the node at \<open>a\<close> (\<open>node.name = ...\<close>, \<open>node.children = ...\<close>), after
  which the node is \<open>obj\<close>. \<open>mutate_cell p x\<close>: a change in place of the object \<open>p\<close> that
  a property refers to (\<open>node.componentProperties.push(...)\<close>), after which its content
  is \<open>x\<close>.
\<close>

definition assign_own :: "nat \<Rightarrow> 'a object \<Rightarrow> 'a store \<Rightarrow> 'a store" where
  "assign_own a obj s =
    (if a < length (objects s) then s\<lparr>objects := (objects s)[a := obj]\<rparr> else s)"

definition mutate_cell :: "nat \<Rightarrow> 'a \<Rightarrow> 'a store \<Rightarrow> 'a store" where
  "mutate_cell p x s = (if p < length (cells s) then s\<lparr>cells := (cells s)[p := x]\<rparr> else s)"

text \<open>
  What a reader finds in the properties of the node at \<open>a\<close>: a primitive as it is, a
  reference followed to the content of its cell.
\<close>

fun deref :: "'a list \<Rightarrow> 'a val \<Rightarrow> 'a option" where
  "deref cs (Prim x) = Some x"
| "deref cs (Ref p) = (if p < length cs then Some (cs ! p) else None)"

definition read_props :: "'a store \<Rightarrow> nat \<Rightarrow> (string \<times> 'a option) list" where
  "read_props s a = map (\<lambda>(k, v). (k, deref (cells s) v)) (oprops (objects s ! a))"

text \<open>
  \<open>wf_store\<close>: every reference in a children array is to an object of the store.
  \<open>represents s a t\<close>: a reader of the node at \<open>a\<close> in \<open>s\<close> finds the tree \<open>t\<close>.
  \<open>shallow_copy n s a b\<close>, for a store whose first \<open>n\<close> node objects are the ones that
  were there before a call: the tree at \<open>a\<close> is a shallow copy of the tree at \<open>b\<close>, cut
  somewhere. Either \<open>a\<close> is \<open>b\<close> itself, an object from before the call without
  children; or \<open>a\<close> is an object allocated by the call that has the \<open>id\<close> and the own
  properties of \<open>b\<close> (the same values and the same references) and either no children
  or, child for child, shallow copies of the children of \<open>b\<close>.
\<close>

definition wf_store :: "'a store \<Rightarrow> bool" where
  "wf_store s =
    list_all (\<lambda>obj. case ochildren obj of None \<Rightarrow> True
                    | Some cs \<Rightarrow> list_all (\<lambda>c. c < length (objects s)) cs) (objects s)"

inductive represents :: "'a store \<Rightarrow> nat \<Rightarrow> (string \<times> 'a option) list node \<Rightarrow> bool"
  for s :: "'a store" where
  absent: "a < length (objects s) \<Longrightarrow> ochildren (objects s ! a) = None \<Longrightarrow>
           represents s a (Node (oid (objects s ! a)) (read_props s a) None)"
| present: "a < length (objects s) \<Longrightarrow> ochildren (objects s ! a) = Some cs \<Longrightarrow>
            list_all2 (represents s) cs ts \<Longrightarrow>
            represents s a (Node (oid (objects s ! a)) (read_props s a) (Some ts))"

inductive shallow_copy :: "nat \<Rightarrow> 'a store \<Rightarrow> nat \<Rightarrow> nat \<Rightarrow> bool"
  and shallow_copies :: "nat \<Rightarrow> 'a store \<Rightarrow> nat list \<Rightarrow> nat list \<Rightarrow> bool"
  for n :: nat and s :: "'a store" where
  same: "a < n \<Longrightarrow> a < length (objects s) \<Longrightarrow>
         ochildren (objects s ! a) = None \<or> ochildren (objects s ! a) = Some [] \<Longrightarrow>
         shallow_copy n s a a"
| cut: "n \<le> a \<Longrightarrow> a < length (objects s) \<Longrightarrow> b < n \<Longrightarrow>
        oid (objects s ! a) = oid (objects s ! b) \<Longrightarrow>
        oprops (objects s ! a) = oprops (objects s ! b) \<Longrightarrow>
        ochildren (objects s ! a) = None \<Longrightarrow> shallow_copy n s a b"
| inner: "n \<le> a \<Longrightarrow> a < length (objects s) \<Longrightarrow> b < n \<Longrightarrow>
         oid (objects s ! a) = oid (objects s ! b) \<Longrightarrow>
         oprops (objects s ! a) = oprops (objects s ! b) \<Longrightarrow>
         ochildren (objects s ! a) = Some as \<Longrightarrow> ochildren (objects s ! b) = Some bs \<Longrightarrow>
         shallow_copies n s as bs \<Longrightarrow> shallow_copy n s a b"
| none: "shallow_copies n s [] []"
| more: "shallow_copy n s a b \<Longrightarrow> shallow_copies n s as bs \<Longrightarrow>
         shallow_copies n s (a # as) (b # bs)"

code_pred shallow_copy .

text \<open>
  The three-level tree of the cache tests as objects, each with its \<open>name\<close> and \<open>type\<close>:
  \<open>node-1\<close> is at reference 4.
\<close>

definition mockStore :: "string store" where
  "mockStore =
    \<lparr>objects =
      [\<lparr>oid = ''grandchild-1'',
        oprops = [(''name'', Prim ''Grandchild Node 1''), (''type'', Prim ''TEXT'')],
        ochildren = None\<rparr>,
       \<lparr>oid = ''grandchild-2'',
        oprops = [(''name'', Prim ''Grandchild Node 2''), (''type'', Prim ''VECTOR'')],
        ochildren = None\<rparr>,
       \<lparr>oid = ''child-1'',
        oprops = [(''name'', Prim ''Child Node 1''), (''type'', Prim ''RECTANGLE'')],
        ochildren = Some [0, 1]\<rparr>,
       \<lparr>oid = ''child-2'',
        oprops = [(''name'', Prim ''Child Node 2''), (''type'', Prim ''TEXT'')],
        ochildren = None\<rparr>,
       \<lparr>oid = ''node-1'',
        oprops = [(''name'', Prim ''Test Node 1''), (''type'', Prim ''FRAME'')],
        ochildren = Some [2, 3]\<rparr>],
     cells = []\<rparr>"

text \<open>
  The instance node of the parser tests, whose \<open>componentProperties\<close> is an array of
  \<open>name\<close>, \<open>value\<close>, \<open>type\<close> entries: the array is cell 0.
\<close>

datatype pvalue = Str string | Arr "(string \<times> string \<times> string) list"

definition instanceStore :: "pvalue store" where
  "instanceStore =
    \<lparr>objects =
      [\<lparr>oid = ''3:1'',
        oprops = [(''name'', Prim (Str ''My Instance'')), (''type'', Prim (Str ''INSTANCE'')),
                  (''componentId'', Prim (Str ''C1:100'')), (''componentProperties'', Ref 0)],
        ochildren = None\<rparr>],
     cells = [Arr [(''textProperty'', ''Hello'', ''TEXT''),
                   (''booleanProperty'', ''true'', ''BOOLEAN'')]]\<rparr>"

section \<open>Properties of the tree utilities\<close>

lemma fold_max_le: "fold max xs (x::int) \<le> b \<longleftrightarrow> x \<le> b \<and> (\<forall>y\<in>set xs. y \<le> b)"
  by (induction xs arbitrary: x) auto

lemma fold_max_less: "fold max xs (x::int) < b \<longleftrightarrow> x < b \<and> (\<forall>y\<in>set xs. y < b)"
  by (induction xs arbitrary: x) auto

lemma fold_max_ge: "(x::int) \<le> fold max xs x"
  by (induction xs arbitrary: x) (auto intro: order_trans[OF max.cobounded2])

lemma le_fold_max: "(r::int) \<le> fold max xs x \<longleftrightarrow> r \<le> x \<or> (\<exists>y\<in>set xs. r \<le> y)"
  using fold_max_less[of xs x r] by (auto simp: not_le[symmetric])

lemma getNodeDepth_nonneg: "0 \<le> getNodeDepth n"
proof (induction n rule: getNodeDepth.induct)
  case (3 i p c cs)
  have "getNodeDepth c \<le> fold max (map getNodeDepth cs) (getNodeDepth c)"
    by (rule fold_max_ge)
  with 3 show ?case by simp
qed simp_all

lemma limitNodeDepth_depth: "getNodeDepth (limitNodeDepth n d) \<le> max d 0"
proof (induction n d rule: limitNodeDepth.induct)
  case (1 i p ch maxDepth)
  show ?case
  proof (cases "maxDepth \<le> 0")
    case True
    then show ?thesis by simp
  next
    case False
    show ?thesis
    proof (cases ch)
      case None
      then show ?thesis using False by simp
    next
      case (Some cs)
      show ?thesis
      proof (cases cs)
        case Nil
        then show ?thesis using False Some by simp
      next
        case (Cons c cs')
        have "\<forall>x\<in>set cs. getNodeDepth (limitNodeDepth x (maxDepth - 1)) \<le> maxDepth - 1"
          using 1[OF False Some] Cons False by fastforce
        then have "fold max (map getNodeDepth (map (\<lambda>child. limitNodeDepth child (maxDepth - 1)) cs'))
                     (getNodeDepth (limitNodeDepth c (maxDepth - 1))) \<le> maxDepth - 1"
          using Cons by (simp add: fold_max_less)
        then show ?thesis using False Some Cons by simp
      qed
    qed
  qed
qed

lemma truncation_of_refl: "truncation_of m m"
  by (induction m) (auto simp: list_all2_same split: option.splits)

lemma limitNodeDepth_truncation: "truncation_of (limitNodeDepth n d) n"
proof (induction n d rule: limitNodeDepth.induct)
  case (1 i p ch maxDepth)
  then show ?case
    by (auto simp: list_all2_map1 list_all2_same truncation_of_refl split: option.splits)
qed

lemma limitNodeDepth_cut: "d \<le> 0 \<Longrightarrow> limitNodeDepth n d = Node (nid n) (nfields n) None"
  by (cases n) simp

text \<open>
  C3, as stated, fails for a negative bound: \<open>limit(node, -1)\<close> is the node without its
  children, of depth 0, which is not \<open>\<le> -1\<close>.
\<close>

theorem limitNodeDepth_negative_bound_counterexample:
  "\<not> getNodeDepth (limitNodeDepth (Node ''n'' () (Some [Node ''c'' () None])) (- 1)) \<le> - 1"
  by simp

text \<open>
  C3 (amended): the depth of \<open>limit(node, d)\<close> is at most \<open>d\<close> for every \<open>d \<ge> 0\<close>, and at
  most \<open>max d 0\<close> for every integer \<open>d\<close>; for \<open>d \<le> 0\<close> the result is the node with the
  children field absent; and the result is the input with some children fields removed:
  every retained node has its id and other fields unchanged.
\<close>

theorem limitNodeDepth_bounds:
  "(0 \<le> d \<longrightarrow> getNodeDepth (limitNodeDepth node d) \<le> d)
   \<and> getNodeDepth (limitNodeDepth node d) \<le> max d 0
   \<and> (d \<le> 0 \<longrightarrow> limitNodeDepth node d = Node (nid node) (nfields node) None)
   \<and> truncation_of (limitNodeDepth node d) node"
  using limitNodeDepth_depth[of node d] limitNodeDepth_truncation[of node d]
    limitNodeDepth_cut[of d node]
  by auto

theorem limitNodeDepth_bounds_witness:
  "getNodeDepth (limitNodeDepth
      (Node ''a'' ''A'' (Some [Node ''b'' ''B'' (Some [Node ''c'' ''C'' None])])) 1) \<le> 1
   \<and> limitNodeDepth (Node ''a'' ''A'' (Some [Node ''b'' ''B'' (Some [Node ''c'' ''C'' None])])) 0
       = Node ''a'' ''A'' None
   \<and> truncation_of
       (limitNodeDepth (Node ''a'' ''A'' (Some [Node ''b'' ''B'' (Some [Node ''c'' ''C'' None])])) 1)
       (Node ''a'' ''A'' (Some [Node ''b'' ''B'' (Some [Node ''c'' ''C'' None])]))"
  using limitNodeDepth_bounds
    [of 1 "Node ''a'' ''A'' (Some [Node ''b'' ''B'' (Some [Node ''c'' ''C'' None])])"]
    limitNodeDepth_bounds
    [of 0 "Node ''a'' ''A'' (Some [Node ''b'' ''B'' (Some [Node ''c'' ''C'' None])])"]
  by simp

subsection \<open>Search\<close>

lemma find_append:
  "List.find P (xs @ ys) = (case List.find P xs of None \<Rightarrow> List.find P ys | Some x \<Rightarrow> Some x)"
  by (induction xs) auto

lemma findNodeInTree_raw_scan:
  "findNodeInTree_raw ns t =
    (case List.find (\<lambda>s. s = Null \<or> is_match t s) (slots_preorder ns) of
       None \<Rightarrow> Inr None
     | Some Null \<Rightarrow> Inl TypeError
     | Some (Obj i p ch) \<Rightarrow> Inr (Some (Obj i p ch)))"
proof (induction ns t rule: findNodeInTree_raw.induct)
  case (1 targetId)
  show ?case by simp
next
  case (2 rest targetId)
  show ?case by simp
next
  case (3 i p ch rest targetId)
  show ?case
  proof (cases "i = targetId")
    case True
    then show ?thesis by simp
  next
    case False
    show ?thesis
    proof (cases ch)
      case None
      then show ?thesis using False 3 by simp
    next
      case (Some cs)
      then show ?thesis using False 3
        by (auto simp: find_append split: option.splits sum.splits slot.splits)
    qed
  qed
qed

lemma find_no_null:
  "Null \<notin> set xs \<Longrightarrow> List.find (\<lambda>s. s = Null \<or> is_match t s) xs = List.find (is_match t) xs"
  by (induction xs) auto

lemma find_is_match_not_null: "List.find (is_match t) xs \<noteq> Some Null"
  by (induction xs) auto

lemma findNodeInTree_raw_typed:
  "findNodeInTree_raw (map slot_of ns) t = Inr (map_option slot_of (findNodeInTree ns t))"
proof (induction ns t rule: findNodeInTree.induct)
  case (1 targetId)
  show ?case by simp
next
  case (2 n rest targetId)
  obtain i p ch where n: "n = Node i p ch" by (cases n)
  show ?case
  proof (cases "i = targetId")
    case True
    then show ?thesis using n by simp
  next
    case False
    then show ?thesis using n 2 by (cases ch) (auto split: option.splits)
  qed
qed

lemma findNodeInTree_raw_no_null:
  assumes "Null \<notin> set (slots_preorder ns)"
  shows "findNodeInTree_raw ns t = Inr (List.find (is_match t) (slots_preorder ns))"
  using find_no_null[OF assms, of t] find_is_match_not_null[of t "slots_preorder ns"]
  by (auto simp: findNodeInTree_raw_scan split: option.splits slot.splits)

text \<open>
  C8: the search does not skip a \<open>null\<close> or \<open>undefined\<close> slot. On the array of the
  tests, where the node \<open>2-1\<close> comes after such slots, the search for \<open>2-1\<close> raises a
  \<open>TypeError\<close> at the first of them instead of returning the node, and the search for
  the id \<open>3\<close>, which no node has, raises instead of returning not-found. The same
  happens below the top level: in the children of \<open>2\<close> alone the search for \<open>2-1\<close>
  raises at the first child.
\<close>

theorem findNodeInTree_null_slot_raises:
  "findNodeInTree_raw nodesWithNullOrUndefined ''2-1'' = Inl TypeError
   \<and> List.find (is_match ''2-1'') (slots_preorder nodesWithNullOrUndefined)
       = Some (Obj ''2-1'' (''Node 2-1'', ''RECTANGLE'') None)
   \<and> findNodeInTree_raw nodesWithNullOrUndefined ''3'' = Inl TypeError
   \<and> List.find (is_match ''3'') (slots_preorder nodesWithNullOrUndefined) = None
   \<and> findNodeInTree_raw
        [Obj ''2'' (''Node 2'', ''GROUP'')
           (Some [Null, Obj ''2-1'' (''Node 2-1'', ''RECTANGLE'') None, Null])] ''2-1''
       = Inl TypeError"
  by (simp add: nodesWithNullOrUndefined_def)

section \<open>Properties of the eviction store\<close>

lemma Map_set_keys: "set (map fst (Map_set k v m)) = insert k (set (map fst m))"
proof (induction m)
  case Nil
  show ?case by simp
next
  case (Cons e m)
  obtain k' v' where e: "e = (k', v')" by (cases e)
  show ?case
  proof (cases "k' = k")
    case True
    then show ?thesis using e by (simp del: set_map)
  next
    case False
    have "set (map fst (Map_set k v (e # m))) = insert k' (set (map fst (Map_set k v m)))"
      using False e by (simp del: set_map)
    also have "\<dots> = insert k' (insert k (set (map fst m)))" by (simp only: Cons.IH)
    also have "\<dots> = insert k (set (map fst (e # m)))" using e by (simp del: set_map add: insert_commute)
    finally show ?thesis .
  qed
qed

lemma Map_set_distinct: "distinct (map fst m) \<Longrightarrow> distinct (map fst (Map_set k v m))"
  by (induction m) (auto simp: Map_set_keys simp del: set_map)

lemma Map_set_length:
  "length (Map_set k v m) = (if k \<in> set (map fst m) then length m else Suc (length m))"
  by (induction m) (auto simp del: set_map)

lemma Map_delete_keys: "set (map fst (Map_delete k m)) = set (map fst m) - {k}"
  by (induction m) (auto simp: Map_delete_def simp del: set_map)

lemma Map_delete_distinct: "distinct (map fst m) \<Longrightarrow> distinct (map fst (Map_delete k m))"
  by (simp add: Map_delete_def distinct_map_filter)

lemma Map_delete_absent: "k \<notin> set (map fst m) \<Longrightarrow> Map_delete k m = m"
  by (induction m) (auto simp: Map_delete_def simp del: set_map)

lemma Map_delete_length:
  "distinct (map fst m) \<Longrightarrow> k \<in> set (map fst m) \<Longrightarrow> Suc (length (Map_delete k m)) = length m"
proof (induction m)
  case Nil
  then show ?case by simp
next
  case (Cons e m)
  show ?case
  proof (cases "fst e = k")
    case True
    then have "k \<notin> set (map fst m)" using Cons.prems by auto
    then have "Map_delete k m = m" by (rule Map_delete_absent)
    then show ?thesis using True by (simp add: Map_delete_def)
  next
    case False
    then have "Suc (length (Map_delete k m)) = length m" using Cons by auto
    then show ?thesis using False by (simp add: Map_delete_def)
  qed
qed

lemma map_of_None_keys: "(map_of m k = None) = (k \<notin> set (map fst m))"
  by (simp add: map_of_eq_None_iff)

lemma moveToFront_eq:
  "distinct ch \<Longrightarrow> moveToFront k ch = k # remove1 k ch"
  by (cases ch) (auto simp: moveToFront_def addToFront_def removeNode_def)

lemma lru_has_keys: "lru_has k c = (k \<in> set (map fst (cache c)))"
  by (simp add: lru_has_def map_of_None_keys del: set_map)

lemma inv_new: "lru_inv (new_LRUCache n)"
  by (simp add: lru_inv_def new_LRUCache_def)

lemma inv_get: "lru_inv c \<Longrightarrow> lru_inv (snd (lru_get k c))"
proof (cases "map_of (cache c) k")
  case None
  assume "lru_inv c"
  then show ?thesis using None by (simp add: lru_get_def)
next
  case (Some a)
  assume inv: "lru_inv c"
  have "k \<in> set (map fst (cache c))" using Some map_of_None_keys[of "cache c" k] by auto
  then show ?thesis using Some inv
    by (auto simp: lru_inv_def lru_get_def moveToFront_eq simp del: set_map)
qed

lemma inv_delete: "lru_inv c \<Longrightarrow> lru_inv (snd (lru_delete k c))"
  by (cases "map_of (cache c) k")
     (auto simp: lru_inv_def lru_delete_def removeNode_def Map_delete_keys Map_delete_distinct
      simp del: set_map)

lemma inv_clear: "lru_inv (lru_clear c)"
  by (simp add: lru_inv_def lru_clear_def)

lemma inv_put: "lru_inv c \<Longrightarrow> lru_inv (lru_put k v c)"
proof -
  assume inv: "lru_inv c"
  show ?thesis
  proof (cases "map_of (cache c) k")
    case (Some a)
    then have "k \<in> set (map fst (cache c))" using map_of_None_keys[of "cache c" k] by auto
    then show ?thesis using Some inv
      by (auto simp: lru_inv_def lru_put_def moveToFront_eq Map_set_keys Map_set_distinct
          simp del: set_map)
  next
    case None
    then have nk: "k \<notin> set (map fst (cache c))" using map_of_None_keys[of "cache c" k] by auto
    show ?thesis
    proof (cases "capacity c \<le> int (length (cache c)) \<and> chain c \<noteq> []")
      case True
      then obtain h r where hr: "chain c = h # r" by (cases "chain c") auto
      have "lru_put k v c =
          c\<lparr>cache := Map_set k v (Map_delete (last (chain c)) (cache c)),
            chain := k # remove1 (last (chain c)) (chain c)\<rparr>"
        using None True hr by (simp add: lru_put_def Let_def addToFront_def removeNode_def)
      then show ?thesis using inv nk
        by (auto simp: lru_inv_def Map_set_keys Map_set_distinct Map_delete_keys
            Map_delete_distinct simp del: set_map)
    next
      case False
      then have "lru_put k v c = c\<lparr>cache := Map_set k v (cache c), chain := k # chain c\<rparr>"
        using None by (auto simp: lru_put_def Let_def addToFront_def split: list.splits)
      then show ?thesis using inv nk
        by (auto simp: lru_inv_def Map_set_keys Map_set_distinct simp del: set_map)
    qed
  qed
qed

lemma inv_step: "lru_inv c \<Longrightarrow> lru_inv (step x c)"
  by (cases x) (auto simp: inv_get inv_put inv_delete inv_clear)

lemma inv_length: "lru_inv c \<Longrightarrow> length (chain c) = length (cache c)"
proof -
  assume "lru_inv c"
  then have "distinct (map fst (cache c))" "distinct (chain c)"
    "set (chain c) = set (map fst (cache c))" by (simp_all add: lru_inv_def del: set_map)
  then have "card (set (chain c)) = card (set (map fst (cache c)))" by simp
  then show ?thesis
    using \<open>distinct (chain c)\<close> \<open>distinct (map fst (cache c))\<close> distinct_card[of "chain c"]
      distinct_card[of "map fst (cache c)"] by simp
qed

lemma capacity_step [simp]: "capacity (step x c) = capacity c"
  by (cases x) (auto simp: lru_get_def lru_put_def lru_delete_def lru_clear_def Let_def
      split: option.splits list.splits)

lemma put_new_full:
  assumes "lru_inv c" "map_of (cache c) k = None" "capacity c \<le> int (length (cache c))"
    "chain c \<noteq> []"
  shows "lru_put k v c =
          c\<lparr>cache := Map_set k v (Map_delete (last (chain c)) (cache c)),
            chain := k # remove1 (last (chain c)) (chain c)\<rparr>"
proof -
  obtain h r where hr: "chain c = h # r" using assms(4) by (cases "chain c") auto
  show ?thesis using assms(2,3) hr
    by (simp add: lru_put_def Let_def addToFront_def removeNode_def)
qed

lemma put_new_room:
  assumes "map_of (cache c) k = None" "\<not> (capacity c \<le> int (length (cache c)) \<and> chain c \<noteq> [])"
  shows "lru_put k v c = c\<lparr>cache := Map_set k v (cache c), chain := k # chain c\<rparr>"
  using assms by (auto simp: lru_put_def Let_def addToFront_def split: list.splits)

lemma put_existing:
  assumes "lru_inv c" "map_of (cache c) k = Some a"
  shows "lru_put k v c = c\<lparr>cache := Map_set k v (cache c), chain := k # remove1 k (chain c)\<rparr>"
  using assms by (simp add: lru_put_def lru_inv_def moveToFront_eq)

lemma bounded_put: assumes "lru_inv c" "bounded c" shows "bounded (lru_put k v c)"
proof (cases "map_of (cache c) k")
  case (Some a)
  then have "k \<in> set (map fst (cache c))" using map_of_None_keys[of "cache c" k] by auto
  then show ?thesis using assms put_existing[OF assms(1) Some, of v]
    by (simp add: bounded_def Map_set_length del: set_map)
next
  case None
  then have nk: "k \<notin> set (map fst (cache c))" using map_of_None_keys[of "cache c" k] by auto
  show ?thesis
  proof (cases "capacity c \<le> int (length (cache c)) \<and> chain c \<noteq> []")
    case True
    then have "last (chain c) \<in> set (chain c)" by simp
    then have lin: "last (chain c) \<in> set (map fst (cache c))"
      using assms(1) by (simp add: lru_inv_def del: set_map)
    have d: "distinct (map fst (cache c))" using assms(1) by (simp add: lru_inv_def)
    have len: "Suc (length (Map_delete (last (chain c)) (cache c))) = length (cache c)"
      using Map_delete_length[OF d lin] .
    have "k \<notin> set (map fst (Map_delete (last (chain c)) (cache c)))"
      using nk by (simp add: Map_delete_keys del: set_map)
    then have "length (Map_set k v (Map_delete (last (chain c)) (cache c))) = length (cache c)"
      using len by (simp add: Map_set_length del: set_map)
    then show ?thesis using put_new_full[OF assms(1) None, of v] True assms(2)
      by (simp add: bounded_def)
  next
    case False
    have l: "length (chain c) = length (cache c)" using inv_length[OF assms(1)] .
    have "length (Map_set k v (cache c)) = Suc (length (cache c))"
      using nk by (simp add: Map_set_length del: set_map)
    moreover have "int (length (cache c)) < capacity c \<or> length (cache c) = 0"
      using False l by auto
    ultimately show ?thesis using put_new_room[OF None False, of v]
      by (auto simp: bounded_def)
  qed
qed

lemma bounded_step: assumes "lru_inv c" "bounded c" shows "bounded (step x c)"
proof (cases x)
  case (Get k)
  then show ?thesis using assms(2) by (auto simp: bounded_def lru_get_def split: option.splits)
next
  case (Put k v)
  then show ?thesis using bounded_put[OF assms] by simp
next
  case (Delete k)
  have "length (Map_delete k (cache c)) \<le> length (cache c)" by (simp add: Map_delete_def)
  then show ?thesis using Delete assms(2)
    by (auto simp: bounded_def lru_delete_def split: option.splits)
next
  case Clear
  then show ?thesis by (simp add: bounded_def lru_clear_def)
qed

lemma sorted_wrt_remove1: "sorted_wrt P xs \<Longrightarrow> sorted_wrt P (remove1 x xs)"
  by (induction xs) (auto dest: notin_set_remove1)

lemma sorted_wrt_eq:
  "(\<forall>x\<in>set xs. \<forall>y\<in>set xs. P x y = Q x y) \<Longrightarrow> sorted_wrt P xs = sorted_wrt Q xs"
  by (induction xs) auto

lemma recent_cons:
  assumes "sorted_wrt (\<lambda>a b. T b < T a) ys" "k \<notin> set ys" "\<forall>x\<in>set ys. T x \<le> t"
    "chain c' = k # ys"
  shows "recent c' (T(k := Suc t)) (Suc t)"
proof -
  have "sorted_wrt (\<lambda>a b. (T(k := Suc t)) b < (T(k := Suc t)) a) ys
      = sorted_wrt (\<lambda>a b. T b < T a) ys"
    using assms(2) by (intro sorted_wrt_eq) auto
  then show ?thesis using assms by (auto simp: recent_def less_Suc_eq_le)
qed

lemma recent_remove1:
  assumes "recent c T t"
  shows "sorted_wrt (\<lambda>a b. T b < T a) (remove1 x (chain c))
       \<and> (\<forall>y\<in>set (remove1 x (chain c)). T y \<le> t)"
  using assms by (auto simp: recent_def sorted_wrt_remove1 dest: notin_set_remove1)

lemma recent_mono: "recent c T t \<Longrightarrow> chain c' = chain c \<Longrightarrow> recent c' T (Suc t)"
  by (auto simp: recent_def)

lemma recent_step:
  assumes inv: "lru_inv c" and r: "recent c T t"
  shows "recent (step x c) (case touched x c of None \<Rightarrow> T | Some k \<Rightarrow> T(k := Suc t)) (Suc t)"
proof (cases x)
  case (Get k)
  show ?thesis
  proof (cases "map_of (cache c) k")
    case None
    then show ?thesis using Get r by (simp add: lru_get_def lru_has_def recent_mono)
  next
    case (Some a)
    have d: "distinct (chain c)" using inv by (simp add: lru_inv_def)
    have ch: "chain (step x c) = k # remove1 k (chain c)"
      using Get Some d by (simp add: lru_get_def moveToFront_eq)
    have "k \<notin> set (remove1 k (chain c))" using d by simp
    then show ?thesis using Get Some recent_cons[OF _ _ _ ch, of T t] recent_remove1[OF r, of k]
      by (simp add: lru_has_def)
  qed
next
  case (Put k v)
  have d: "distinct (chain c)" using inv by (simp add: lru_inv_def)
  show ?thesis
  proof (cases "map_of (cache c) k")
    case (Some a)
    have ch: "chain (step x c) = k # remove1 k (chain c)"
      using Put put_existing[OF inv Some, of v] by simp
    have "k \<notin> set (remove1 k (chain c))" using d by simp
    then show ?thesis using Put recent_cons[OF _ _ _ ch, of T t] recent_remove1[OF r, of k]
      by simp
  next
    case None
    then have "k \<notin> set (map fst (cache c))" using map_of_None_keys[of "cache c" k] by auto
    then have nk: "k \<notin> set (chain c)" using inv by (simp add: lru_inv_def del: set_map)
    show ?thesis
    proof (cases "capacity c \<le> int (length (cache c)) \<and> chain c \<noteq> []")
      case True
      then have ch: "chain (step x c) = k # remove1 (last (chain c)) (chain c)"
        using Put put_new_full[OF inv None, of v] by simp
      have "k \<notin> set (remove1 (last (chain c)) (chain c))"
        using nk by (auto dest: notin_set_remove1)
      then show ?thesis
        using Put recent_cons[OF _ _ _ ch, of T t] recent_remove1[OF r, of "last (chain c)"]
        by simp
    next
      case False
      have ch: "chain (step x c) = k # chain c"
        using Put put_new_room[OF None False, of v] by simp
      show ?thesis using Put recent_cons[OF _ nk _ ch, of T t] r by (simp add: recent_def)
    qed
  qed
next
  case (Delete k)
  show ?thesis
  proof (cases "map_of (cache c) k")
    case None
    then show ?thesis using Delete r by (simp add: lru_delete_def recent_mono)
  next
    case (Some a)
    then have "chain (step x c) = remove1 k (chain c)"
      using Delete by (simp add: lru_delete_def removeNode_def)
    then show ?thesis using Delete recent_remove1[OF r, of k] by (auto simp: recent_def)
  qed
next
  case Clear
  then show ?thesis by (simp add: recent_def lru_clear_def)
qed

lemma run_Cons: "run (x # xs) c = run xs (step x c)"
  by (simp add: run_def)

lemma run_invariants:
  assumes "lru_inv c" "bounded c" "recent c T t"
  shows "lru_inv (run ops c) \<and> bounded (run ops c)
       \<and> (\<exists>t'. recent (run ops c) (touch_times ops c t T) t')"
  using assms
proof (induction ops arbitrary: c T t)
  case Nil
  then show ?case by (auto simp: run_def)
next
  case (Cons x xs)
  show ?case
    using Cons.IH[OF inv_step[OF Cons.prems(1)] bounded_step[OF Cons.prems(1,2)]
        recent_step[OF Cons.prems(1,3)]]
    by (simp add: run_Cons)
qed

lemma capacity_run [simp]: "capacity (run ops c) = capacity c"
  by (induction ops arbitrary: c) (simp_all add: run_def)

lemma reachable:
  "lru_inv (run ops (new_LRUCache n)) \<and> bounded (run ops (new_LRUCache n))
   \<and> (\<exists>t'. recent (run ops (new_LRUCache n)) (last_touch n ops) t')"
proof -
  have "bounded (new_LRUCache n :: ('a, 'b) LRUCache)"
    by (simp add: bounded_def new_LRUCache_def)
  moreover have "recent (new_LRUCache n :: ('a, 'b) LRUCache) (\<lambda>_. 0) 0"
    by (simp add: recent_def new_LRUCache_def)
  ultimately show ?thesis
    unfolding last_touch_def using run_invariants[OF inv_new] by blast
qed

lemma sorted_wrt_last:
  "sorted_wrt P xs \<Longrightarrow> x \<in> set xs \<Longrightarrow> x \<noteq> last xs \<Longrightarrow> P x (last xs)"
  by (induction xs) (auto split: if_splits)

lemma fold_min_unique:
  fixes T :: "'k \<Rightarrow> nat"
  assumes "m = k \<or> m \<in> set ks" "\<forall>x\<in>set (k # ks). x \<noteq> m \<longrightarrow> T m < T x"
  shows "fold (\<lambda>a b. if T a < T b then a else b) ks k = m"
  using assms
proof (induction ks arbitrary: k)
  case Nil
  then show ?case by simp
next
  case (Cons a ks)
  let ?k' = "if T a < T k then a else k"
  have 1: "m = ?k' \<or> m \<in> set ks"
    using Cons.prems by (cases "m = k") (auto simp: not_less_iff_gr_or_eq)
  have 2: "\<forall>x\<in>set (?k' # ks). x \<noteq> m \<longrightarrow> T m < T x"
    using Cons.prems by auto
  show ?case using Cons.IH[OF 1 2] by simp
qed

lemma view_capacity_and_eviction:
  fixes ops :: "('k, 'v) op list"
  shows
  "int (lru_size (run ops (new_LRUCache n))) \<le> max n 1
   \<and> (1 \<le> n \<longrightarrow> int (lru_size (run ops (new_LRUCache n))) \<le> n)
   \<and> (1 \<le> n \<and> \<not> lru_has k (run ops (new_LRUCache n))
        \<and> int (lru_size (run ops (new_LRUCache n))) = n \<longrightarrow>
       (\<exists>victim.
          least_recently_touched (last_touch n ops)
              (map fst (cache (run ops (new_LRUCache n)))) = Some victim
          \<and> lru_has victim (run ops (new_LRUCache n))
          \<and> (\<forall>k'. lru_has k' (run ops (new_LRUCache n)) \<and> k' \<noteq> victim \<longrightarrow>
                 last_touch n ops victim < last_touch n ops k')
          \<and> (\<forall>x. lru_has x (lru_put k v (run ops (new_LRUCache n))) =
                 (x = k \<or> (lru_has x (run ops (new_LRUCache n)) \<and> x \<noteq> victim)))))
   \<and> (\<forall>x k'. touched x (run ops (new_LRUCache n)) = Some k' \<longrightarrow>
         (\<exists>rest. chain (step x (run ops (new_LRUCache n))) = k' # rest))"
proof -
  define c :: "('k, 'v) LRUCache" where "c = run ops (new_LRUCache n)"
  define T where "T = last_touch n ops"
  obtain t' where inv: "lru_inv c" and bnd: "bounded c" and rec: "recent c T t'"
    using reachable[of ops n] by (auto simp: c_def T_def)
  have cap: "capacity c = n" by (simp add: c_def new_LRUCache_def)
  have size: "int (lru_size c) \<le> max n 1" using bnd cap by (simp add: bounded_def lru_size_def)
  have front: "\<exists>rest. chain (step x c) = k' # rest" if "touched x c = Some k'" for x k'
  proof (cases x)
    case (Get j)
    then have "map_of (cache c) j \<noteq> None" "j = k'"
      using that by (auto simp: lru_has_def split: if_splits)
    then show ?thesis using Get inv
      by (auto simp: lru_get_def lru_inv_def moveToFront_eq)
  next
    case (Put j w)
    then have j: "j = k'" using that by simp
    show ?thesis
    proof (cases "map_of (cache c) j")
      case None
      then show ?thesis using Put j
        by (auto simp: lru_put_def Let_def addToFront_def split: list.splits)
    next
      case (Some a)
      then show ?thesis using Put j put_existing[OF inv Some, of w] by simp
    qed
  next
    case (Delete j)
    then show ?thesis using that by simp
  next
    case Clear
    then show ?thesis using that by simp
  qed
  have evict: "\<exists>victim.
      least_recently_touched T (map fst (cache c)) = Some victim
      \<and> lru_has victim c
      \<and> (\<forall>k'. lru_has k' c \<and> k' \<noteq> victim \<longrightarrow> T victim < T k')
      \<and> (\<forall>x. lru_has x (lru_put k v c) = (x = k \<or> (lru_has x c \<and> x \<noteq> victim)))"
    if n: "1 \<le> n" and nk: "\<not> lru_has k c" and full: "int (lru_size c) = n"
  proof -
    have len: "0 < length (cache c)" using n full by (cases "cache c") (auto simp: lru_size_def)
    then have ne: "chain c \<noteq> []" using inv_length[OF inv] by auto
    let ?victim = "last (chain c)"
    have keys: "set (chain c) = set (map fst (cache c))"
      using inv by (simp add: lru_inv_def del: set_map)
    have vin: "?victim \<in> set (map fst (cache c))" using ne keys by auto
    have srt: "sorted_wrt (\<lambda>a b. T b < T a) (chain c)" using rec by (simp add: recent_def)
    have least: "T ?victim < T k'" if "k' \<in> set (map fst (cache c))" "k' \<noteq> ?victim" for k'
      using sorted_wrt_last[OF srt, of k'] that keys by simp
    obtain k0 ks where ks: "map fst (cache c) = k0 # ks"
      using len by (cases "cache c") auto
    have "fold (\<lambda>a b. if T a < T b then a else b) ks k0 = ?victim"
      by (rule fold_min_unique) (use vin least ks in auto)
    then have lrt: "least_recently_touched T (map fst (cache c)) = Some ?victim"
      using ks by simp
    have none: "map_of (cache c) k = None" using nk by (simp add: lru_has_def)
    have "capacity c \<le> int (length (cache c))" using cap full by (simp add: lru_size_def)
    then have put: "lru_put k v c =
        c\<lparr>cache := Map_set k v (Map_delete ?victim (cache c)),
          chain := k # remove1 ?victim (chain c)\<rparr>"
      using put_new_full[OF inv none _ ne] by simp
    have after: "lru_has x (lru_put k v c) = (x = k \<or> (lru_has x c \<and> x \<noteq> ?victim))" for x
      by (auto simp: put lru_has_keys Map_set_keys Map_delete_keys simp del: set_map)
    show ?thesis using lrt vin least after
      by (intro exI[of _ ?victim]) (auto simp: lru_has_keys simp del: set_map)
  qed
  show ?thesis
    using size front evict unfolding c_def T_def by (auto simp del: set_map)
qed

subsection \<open>The linked list implements the view\<close>

lemma seg_bound: "seg h p xs q \<Longrightarrow> x \<in> set xs \<Longrightarrow> x < length h"
  by (induction xs arbitrary: p) auto

lemma firsto_simps [simp]:
  "firsto [] q = q" "firsto (x # xs) q = Some x"
  "firsto (as @ bs) q = firsto as (firsto bs q)"
  by (cases as; simp add: firsto_def)+

lemma lasto_simps [simp]:
  "lasto [] p = p" "lasto (x # xs) p = lasto xs (Some x)"
  "lasto (as @ [x]) p = Some x"
  by (simp_all add: lasto_def)

lemma seg_append:
  "seg h p (as @ bs) q = (seg h p as (firsto bs q) \<and> seg h (lasto as p) bs q)"
  by (induction as arbitrary: p) auto

lemma seg_transfer:
  assumes "seg h p xs q" "length h' = length h"
    "\<forall>x\<in>set (tl xs). nprev (h' ! x) = nprev (h ! x)"
    "\<forall>x\<in>set (butlast xs). nnext (h' ! x) = nnext (h ! x)"
    "xs \<noteq> [] \<longrightarrow> nprev (h' ! hd xs) = p' \<and> nnext (h' ! last xs) = q'"
  shows "seg h' p' xs q'"
  using assms
proof (induction xs arbitrary: p p')
  case Nil
  show ?case by simp
next
  case (Cons x xs)
  show ?case
  proof (cases xs)
    case Nil
    then show ?thesis using Cons.prems by simp
  next
    case (Cons y ys)
    have "seg h' (Some x) xs q'"
    proof (rule Cons.IH[of "Some x"])
      show "seg h (Some x) xs q" using Cons.prems(1) by simp
      show "length h' = length h" by fact
      show "\<forall>z\<in>set (tl xs). nprev (h' ! z) = nprev (h ! z)"
        using Cons.prems(3) Cons by auto
      show "\<forall>z\<in>set (butlast xs). nnext (h' ! z) = nnext (h ! z)"
        using Cons.prems(4) Cons by auto
      show "xs \<noteq> [] \<longrightarrow> nprev (h' ! hd xs) = Some x \<and> nnext (h' ! last xs) = q'"
        using Cons.prems(1,3,5) Cons by auto
    qed
    then show ?thesis using Cons.prems Cons by auto
  qed
qed

lemma walk_seg:
  "seg h p xs None \<Longrightarrow> length xs \<le> n \<Longrightarrow> walk h n (firsto xs None) = xs"
proof (induction xs arbitrary: p n)
  case Nil
  then show ?case by (cases n) simp_all
next
  case (Cons x xs)
  then obtain m where n: "n = Suc m" by (cases n) auto
  have "walk h m (firsto xs None) = xs" using Cons.IH[of "Some x" m] Cons.prems n by simp
  then show ?case using Cons.prems n by simp
qed

lemma distinct_bounded_length:
  "distinct xs \<Longrightarrow> \<forall>x\<in>set xs. x < (n::nat) \<Longrightarrow> length xs \<le> n"
proof -
  assume d: "distinct xs" and b: "\<forall>x\<in>set xs. x < n"
  have "set xs \<subseteq> {..<n}" using b by auto
  then have "card (set xs) \<le> card {..<n}" by (intro card_mono) auto
  then show ?thesis using d by (simp add: distinct_card)
qed

lemma walk_dll:
  assumes "dll s xs"
  shows "walk (l_heap s) (length (l_heap s)) (l_head s) = xs"
proof -
  have "length xs \<le> length (l_heap s)"
    using assms seg_bound[of "l_heap s" None xs None]
    by (intro distinct_bounded_length) (auto simp: dll_def)
  then show ?thesis using assms walk_seg[of "l_heap s" None xs] by (simp add: dll_def)
qed

lemma lasto_append [simp]: "lasto (as @ bs) p = lasto bs (lasto as p)"
  by (induction as arbitrary: p) simp_all

lemma seg_ends:
  "seg h p xs q \<Longrightarrow> xs \<noteq> [] \<Longrightarrow> nprev (h ! hd xs) = p \<and> nnext (h ! last xs) = q"
  by (induction xs arbitrary: p) (auto split: if_splits)

lemma lasto_nonempty: "xs \<noteq> [] \<Longrightarrow> lasto xs p = Some (last xs)"
  by (simp add: lasto_def)

lemma firsto_nonempty: "xs \<noteq> [] \<Longrightarrow> firsto xs q = Some (hd xs)"
  by (cases xs) simp_all

lemma nth_update_cases:
  "(h[i := v]) ! a = (if a = i \<and> i < length h then v else h ! a)"
proof (cases "i < length h")
  case True
  then show ?thesis by (simp add: nth_list_update)
next
  case False
  then have "h[i := v] = h" by (simp add: list_update_beyond)
  then show ?thesis using False by simp
qed

lemma nth_update_fields:
  "nkey ((h[i := f (h ! i)]) ! a) = (if a = i \<and> i < length h then nkey (f (h ! i)) else nkey (h ! a))"
  "nvalue ((h[i := f (h ! i)]) ! a) = (if a = i \<and> i < length h then nvalue (f (h ! i)) else nvalue (h ! a))"
  "nprev ((h[i := f (h ! i)]) ! a) = (if a = i \<and> i < length h then nprev (f (h ! i)) else nprev (h ! a))"
  "nnext ((h[i := f (h ! i)]) ! a) = (if a = i \<and> i < length h then nnext (f (h ! i)) else nnext (h ! a))"
  by (simp_all add: nth_update_cases)

lemma removeNode_eq:
  assumes "dll s (as @ x # bs)"
  shows "l_removeNode x s =
      s\<lparr>l_heap := unlink as x bs (l_heap s),
        l_head := (if as = [] then firsto bs None else l_head s),
        l_tail := (if bs = [] then lasto as None else l_tail s)\<rparr>"
proof -
  let ?h = "l_heap s"
  have d: "distinct (as @ x # bs)" and sg: "seg ?h None (as @ x # bs) None"
    using assms by (simp_all add: dll_def)
  have px: "nprev (?h ! x) = lasto as None" and nx: "nnext (?h ! x) = firsto bs None"
    using sg by (simp_all add: seg_append)
  show ?thesis
  proof (cases "as = []")
    case True
    show ?thesis
    proof (cases "bs = []")
      case True
      then show ?thesis using \<open>as = []\<close> px nx
        by (simp add: l_removeNode_def unlink_def Let_def)
    next
      case False
      then have "firsto bs None = Some (hd bs)" by (rule firsto_nonempty)
      then show ?thesis using \<open>as = []\<close> False px nx
        by (simp add: l_removeNode_def unlink_def assign_def Let_def)
    qed
  next
    case False
    then have la: "lasto as None = Some (last as)" by (rule lasto_nonempty)
    have ne: "last as \<noteq> x" using d False by auto
    show ?thesis
    proof (cases "bs = []")
      case True
      then show ?thesis using False la px nx ne
        by (simp add: l_removeNode_def unlink_def assign_def nth_update_fields Let_def)
    next
      case bne: False
      then have "firsto bs None = Some (hd bs)" by (rule firsto_nonempty)
      then show ?thesis using False bne la px nx ne
        by (simp add: l_removeNode_def unlink_def assign_def nth_update_fields Let_def)
    qed
  qed
qed

lemma unlink_length [simp]: "length (unlink as x bs h) = length h"
  by (simp add: unlink_def Let_def)

lemma unlink_key_value:
  "nkey (unlink as x bs h ! a) = nkey (h ! a)" "nvalue (unlink as x bs h ! a) = nvalue (h ! a)"
  by (simp_all add: unlink_def Let_def nth_update_fields)

lemma distinct_butlast_neq: "distinct xs \<Longrightarrow> y \<in> set (butlast xs) \<Longrightarrow> y \<noteq> last xs"
  by (induction xs) (auto split: if_splits dest: in_set_butlastD)

lemma distinct_tl_neq: "distinct xs \<Longrightarrow> y \<in> set (tl xs) \<Longrightarrow> y \<noteq> hd xs"
  by (cases xs) auto

lemma in_tl_in_set: "y \<in> set (tl xs) \<Longrightarrow> y \<in> set xs"
  by (cases xs) auto

lemma disjoint_last:
  assumes "set as \<inter> set bs = {}" "y \<in> set bs"
  shows "as \<noteq> [] \<longrightarrow> y \<noteq> last as"
proof
  assume "as \<noteq> []"
  then have "last as \<in> set as" by simp
  then show "y \<noteq> last as" using assms by auto
qed

lemma unlink_seg:
  assumes d: "distinct (as @ x # bs)" and sg: "seg h None (as @ x # bs) None"
  shows "seg (unlink as x bs h) None (as @ bs) None"
proof -
  let ?h' = "unlink as x bs h"
  have sa: "seg h None as (Some x)" and sb: "seg h (Some x) bs None"
    using sg by (simp_all add: seg_append)
  have da: "distinct as" and db: "distinct bs" and dab: "set as \<inter> set bs = {}"
    using d by auto
  have ba: "\<forall>y\<in>set as. y < length h" using sa seg_bound by blast
  have bb: "\<forall>y\<in>set bs. y < length h" using sb seg_bound by blast
  have 1: "seg ?h' None as (firsto bs None)"
  proof (rule seg_transfer[OF sa])
    show "length ?h' = length h" by simp
    show "\<forall>y\<in>set (tl as). nprev (?h' ! y) = nprev (h ! y)"
    proof
      fix y assume "y \<in> set (tl as)"
      then have "y \<in> set as" by (rule in_tl_in_set)
      then have "bs \<noteq> [] \<longrightarrow> y \<noteq> hd bs" using dab by (cases bs) auto
      then show "nprev (?h' ! y) = nprev (h ! y)"
        by (auto simp: unlink_def Let_def nth_update_fields)
    qed
    show "\<forall>y\<in>set (butlast as). nnext (?h' ! y) = nnext (h ! y)"
    proof
      fix y assume y: "y \<in> set (butlast as)"
      then have "y \<noteq> last as" using da by (rule distinct_butlast_neq[rotated])
      then show "nnext (?h' ! y) = nnext (h ! y)"
        by (auto simp: unlink_def Let_def nth_update_fields)
    qed
    show "as \<noteq> [] \<longrightarrow> nprev (?h' ! hd as) = None \<and> nnext (?h' ! last as) = firsto bs None"
    proof
      assume ne: "as \<noteq> []"
      then have "hd as \<in> set as" "last as \<in> set as" by simp_all
      then have "bs \<noteq> [] \<longrightarrow> hd as \<noteq> hd bs \<and> last as \<noteq> hd bs" using dab by (cases bs) auto
      moreover have "nprev (h ! hd as) = None" using seg_ends[OF sa ne] by simp
      moreover have "last as < length h" using ba ne by simp
      ultimately show "nprev (?h' ! hd as) = None \<and> nnext (?h' ! last as) = firsto bs None"
        using ne by (auto simp: unlink_def Let_def nth_update_fields)
    qed
  qed
  have 2: "seg ?h' (lasto as None) bs None"
  proof (rule seg_transfer[OF sb])
    show "length ?h' = length h" by simp
    show "\<forall>y\<in>set (tl bs). nprev (?h' ! y) = nprev (h ! y)"
    proof
      fix y assume y: "y \<in> set (tl bs)"
      have 1: "y \<noteq> hd bs" using db y by (rule distinct_tl_neq)
      have "y \<in> set bs" using y by (rule in_tl_in_set)
      then have "as \<noteq> [] \<longrightarrow> y \<noteq> last as" using dab by (rule disjoint_last[rotated])
      then show "nprev (?h' ! y) = nprev (h ! y)" using 1
        by (auto simp: unlink_def Let_def nth_update_fields)
    qed
    show "\<forall>y\<in>set (butlast bs). nnext (?h' ! y) = nnext (h ! y)"
    proof
      fix y assume "y \<in> set (butlast bs)"
      then have "y \<in> set bs" by (rule in_set_butlastD)
      then have "as \<noteq> [] \<longrightarrow> y \<noteq> last as" using dab by (rule disjoint_last[rotated])
      then show "nnext (?h' ! y) = nnext (h ! y)"
        by (auto simp: unlink_def Let_def nth_update_fields)
    qed
    show "bs \<noteq> [] \<longrightarrow> nprev (?h' ! hd bs) = lasto as None \<and> nnext (?h' ! last bs) = None"
    proof
      assume ne: "bs \<noteq> []"
      then have in1: "hd bs \<in> set bs" "last bs \<in> set bs" by simp_all
      then have "as \<noteq> [] \<longrightarrow> hd bs \<noteq> last as \<and> last bs \<noteq> last as"
        using disjoint_last[OF dab, of "hd bs"] disjoint_last[OF dab, of "last bs"] by blast
      moreover have "nnext (h ! last bs) = None" using seg_ends[OF sb ne] by simp
      moreover have "hd bs < length h" using bb in1 by simp
      ultimately show "nprev (?h' ! hd bs) = lasto as None \<and> nnext (?h' ! last bs) = None"
        using ne by (auto simp: unlink_def Let_def nth_update_fields)
    qed
  qed
  show ?thesis using 1 2 by (simp add: seg_append)
qed

lemma removeNode_dll:
  assumes "dll s (as @ x # bs)"
  shows "dll (l_removeNode x s) (as @ bs)"
proof -
  have d: "distinct (as @ x # bs)" and sg: "seg (l_heap s) None (as @ x # bs) None"
    and hd: "l_head s = firsto (as @ x # bs) None" and tl: "l_tail s = lasto (as @ x # bs) None"
    using assms by (simp_all add: dll_def)
  have "distinct (as @ bs)" using d by auto
  moreover have "seg (unlink as x bs (l_heap s)) None (as @ bs) None"
    using unlink_seg[OF d sg] .
  ultimately show ?thesis
    using hd tl by (cases "as = []"; cases "bs = []")
      (simp_all add: removeNode_eq[OF assms] dll_def firsto_nonempty lasto_nonempty)
qed

lemma addToFront_eq:
  assumes "dll s xs"
  shows "l_addToFront x s =
      s\<lparr>l_heap := link x xs (l_heap s), l_head := Some x,
        l_tail := (if xs = [] then Some x else l_tail s)\<rparr>"
proof (cases "xs = []")
  case True
  then show ?thesis using assms
    by (simp add: l_addToFront_def link_def assign_def Let_def dll_def)
next
  case False
  then have "firsto xs None = Some (hd xs)" "lasto xs None = Some (last xs)"
    by (simp_all add: firsto_nonempty lasto_nonempty)
  then show ?thesis using assms False
    by (simp add: l_addToFront_def link_def assign_def Let_def dll_def)
qed

lemma link_length [simp]: "length (link x xs h) = length h"
  by (simp add: link_def Let_def)

lemma link_key_value:
  "nkey (link x xs h ! a) = nkey (h ! a)" "nvalue (link x xs h ! a) = nvalue (h ! a)"
  by (simp_all add: link_def Let_def nth_update_fields nth_update_cases)

lemma link_seg:
  assumes d: "distinct xs" and sg: "seg h None xs None" and nx: "x \<notin> set xs"
    and lt: "x < length h"
  shows "seg (link x xs h) None (x # xs) None"
proof -
  let ?h' = "link x xs h"
  have hx: "xs \<noteq> [] \<longrightarrow> hd xs \<noteq> x" using nx by (cases xs) auto
  have 1: "nprev (?h' ! x) = None \<and> nnext (?h' ! x) = firsto xs None"
    using lt hx by (auto simp: link_def Let_def nth_update_cases)
  have 2: "seg ?h' (Some x) xs None"
  proof (rule seg_transfer[OF sg])
    show "length ?h' = length h" by simp
    show "\<forall>y\<in>set (tl xs). nprev (?h' ! y) = nprev (h ! y)"
    proof
      fix y assume y: "y \<in> set (tl xs)"
      have "y \<noteq> hd xs" using d y by (rule distinct_tl_neq)
      moreover have "y \<noteq> x" using in_tl_in_set[OF y] nx by auto
      ultimately show "nprev (?h' ! y) = nprev (h ! y)"
        by (auto simp: link_def Let_def nth_update_cases)
    qed
    show "\<forall>y\<in>set (butlast xs). nnext (?h' ! y) = nnext (h ! y)"
    proof
      fix y assume "y \<in> set (butlast xs)"
      then have "y \<in> set xs" by (rule in_set_butlastD)
      then have "y \<noteq> x" using nx by auto
      then show "nnext (?h' ! y) = nnext (h ! y)"
        by (auto simp: link_def Let_def nth_update_cases)
    qed
    show "xs \<noteq> [] \<longrightarrow> nprev (?h' ! hd xs) = Some x \<and> nnext (?h' ! last xs) = None"
    proof
      assume ne: "xs \<noteq> []"
      then have "hd xs \<in> set xs" "last xs \<in> set xs" by simp_all
      then have "hd xs \<noteq> x" "last xs \<noteq> x" "hd xs < length h"
        using nx seg_bound[OF sg] by auto
      moreover have "nnext (h ! last xs) = None" using seg_ends[OF sg ne] by simp
      ultimately show "nprev (?h' ! hd xs) = Some x \<and> nnext (?h' ! last xs) = None"
        using ne by (auto simp: link_def Let_def nth_update_cases)
    qed
  qed
  show ?thesis using 1 2 lt by simp
qed

lemma addToFront_dll:
  assumes "dll s xs" "x \<notin> set xs" "x < length (l_heap s)"
  shows "dll (l_addToFront x s) (x # xs)"
proof -
  have "seg (link x xs (l_heap s)) None (x # xs) None"
    using assms by (intro link_seg) (auto simp: dll_def)
  then show ?thesis using assms
    by (cases "xs = []") (auto simp: addToFront_eq[OF assms(1)] dll_def lasto_nonempty)
qed

lemma removeNode_frame:
  assumes "dll s (as @ x # bs)"
  shows "l_cache (l_removeNode x s) = l_cache s"
    "l_capacity (l_removeNode x s) = l_capacity s"
    "length (l_heap (l_removeNode x s)) = length (l_heap s)"
    "nkey (l_heap (l_removeNode x s) ! a) = nkey (l_heap s ! a)"
    "nvalue (l_heap (l_removeNode x s) ! a) = nvalue (l_heap s ! a)"
  by (simp_all add: removeNode_eq[OF assms] unlink_key_value)

lemma addToFront_frame:
  assumes "dll s xs"
  shows "l_cache (l_addToFront x s) = l_cache s"
    "l_capacity (l_addToFront x s) = l_capacity s"
    "length (l_heap (l_addToFront x s)) = length (l_heap s)"
    "nkey (l_heap (l_addToFront x s) ! a) = nkey (l_heap s ! a)"
    "nvalue (l_heap (l_addToFront x s) ! a) = nvalue (l_heap s ! a)"
  by (simp_all add: addToFront_eq[OF assms] link_key_value)

lemma split_at: "x \<in> set xs \<Longrightarrow> \<exists>as bs. xs = as @ x # bs \<and> x \<notin> set as"
  by (rule split_list_first)

lemma moveToFront_dll:
  assumes "dll s xs" "x \<in> set xs"
  shows "dll (l_moveToFront x s) (x # remove1 x xs)
     \<and> l_cache (l_moveToFront x s) = l_cache s
     \<and> l_capacity (l_moveToFront x s) = l_capacity s
     \<and> length (l_heap (l_moveToFront x s)) = length (l_heap s)
     \<and> (\<forall>a. nkey (l_heap (l_moveToFront x s) ! a) = nkey (l_heap s ! a)
            \<and> nvalue (l_heap (l_moveToFront x s) ! a) = nvalue (l_heap s ! a))"
proof (cases "l_head s = Some x")
  case True
  then have "firsto xs None = Some x" using assms(1) by (simp add: dll_def)
  then obtain rest where "xs = x # rest" using assms(2) by (cases xs) auto
  then show ?thesis using True assms(1) by (simp add: l_moveToFront_def)
next
  case False
  obtain as bs where xs: "xs = as @ x # bs" "x \<notin> set as"
    using split_at[OF assms(2)] by blast
  have d0: "dll s (as @ x # bs)" using assms(1) xs by simp
  have r: "remove1 x xs = as @ bs" using xs by (simp add: remove1_append)
  have d1: "dll (l_removeNode x s) (as @ bs)" using removeNode_dll[OF d0] .
  have nin: "x \<notin> set (as @ bs)" using d0 by (auto simp: dll_def)
  have lt: "x < length (l_heap s)" using d0 seg_bound[of "l_heap s" None xs None x] xs
    by (auto simp: dll_def)
  have lt1: "x < length (l_heap (l_removeNode x s))"
    using lt by (simp add: removeNode_frame[OF d0])
  have d2: "dll (l_addToFront x (l_removeNode x s)) (x # as @ bs)"
    using addToFront_dll[OF d1 nin lt1] .
  show ?thesis using False d2 r
    by (simp add: l_moveToFront_def addToFront_frame[OF d1] removeNode_frame[OF d0])
qed

lemma view_linked:
  assumes "linked s xs"
  shows "view s =
     \<lparr>capacity = l_capacity s, cache = entries s,
      chain = map (\<lambda>node. nkey (l_heap s ! node)) xs\<rparr>"
  using assms walk_dll[of s xs] by (simp add: view_def linked_def entries_def)

lemma linked_lookup:
  assumes "linked s xs" "map_of (l_cache s) k = Some node"
  shows "node \<in> set xs" "nkey (l_heap s ! node) = k" "node < length (l_heap s)"
proof -
  have m: "(k, node) \<in> set (l_cache s)" using assms(2) by (rule map_of_SomeD)
  then have "node \<in> set (map snd (l_cache s))" by force
  then show 1: "node \<in> set xs" using assms(1) by (simp add: linked_def del: set_map)
  show "nkey (l_heap s ! node) = k" using assms(1) m by (auto simp: linked_def)
  show "node < length (l_heap s)"
    using assms(1) 1 seg_bound[of "l_heap s" None xs None node] by (simp add: linked_def dll_def)
qed

lemma linked_node_key:
  assumes "linked s xs" "a \<in> set xs"
  shows "(nkey (l_heap s ! a), a) \<in> set (l_cache s)"
proof -
  have "a \<in> set (map snd (l_cache s))" using assms by (simp add: linked_def del: set_map)
  then obtain k where m: "(k, a) \<in> set (l_cache s)" by auto
  then have "nkey (l_heap s ! a) = k" using assms(1) by (auto simp: linked_def)
  then show ?thesis using m by simp
qed

lemma linked_inj:
  assumes "linked s xs"
  shows "inj_on (\<lambda>node. nkey (l_heap s ! node)) (set xs)"
proof (rule inj_onI)
  fix a b assume a: "a \<in> set xs" and b: "b \<in> set xs"
    and eq: "nkey (l_heap s ! a) = nkey (l_heap s ! b)"
  have "(nkey (l_heap s ! a), a) \<in> set (l_cache s)" "(nkey (l_heap s ! a), b) \<in> set (l_cache s)"
    using linked_node_key[OF assms a] linked_node_key[OF assms b] eq by simp_all
  moreover have "distinct (map fst (l_cache s))" using assms by (simp add: linked_def)
  ultimately show "a = b" by (rule eq_key_imp_eq_value[rotated])
qed

lemma map_of_entries:
  "map_of (entries s) k = map_option (\<lambda>node. nvalue (l_heap s ! node)) (map_of (l_cache s) k)"
  by (induction "l_cache s" arbitrary: s) (auto simp: entries_def map_of_map case_prod_beta
      intro: map_of_map[of _ "l_cache _"])

lemma entries_keys: "map fst (entries s) = map fst (l_cache s)"
  by (simp add: entries_def case_prod_beta comp_def)

lemma linked_keys:
  assumes "linked s xs"
  shows "set (map (\<lambda>node. nkey (l_heap s ! node)) xs) = set (map fst (l_cache s))"
proof -
  have "\<And>e. e \<in> set (l_cache s) \<Longrightarrow> snd e \<in> set xs"
    using assms by (auto simp: linked_def simp del: set_map) force
  then show ?thesis
    using assms linked_node_key[OF assms] by (auto simp: linked_def simp del: set_map) force+
qed

lemma linked_inv:
  assumes "linked s xs"
  shows "lru_inv (view s)"
proof -
  have "distinct xs" using assms by (simp add: linked_def dll_def)
  then have "distinct (map (\<lambda>node. nkey (l_heap s ! node)) xs)"
    using linked_inj[OF assms] by (simp add: distinct_map)
  then show ?thesis
    using assms linked_keys[OF assms]
    by (simp add: view_linked[OF assms] lru_inv_def entries_keys linked_def del: set_map)
qed

lemma remove1_map_inj:
  "inj_on f (set xs) \<Longrightarrow> x \<in> set xs \<Longrightarrow> remove1 (f x) (map f xs) = map f (remove1 x xs)"
proof (induction xs)
  case Nil
  then show ?case by simp
next
  case (Cons y ys)
  show ?case
  proof (cases "y = x")
    case True
    then show ?thesis by simp
  next
    case False
    then have "f y \<noteq> f x" using Cons.prems by (auto simp: inj_on_def)
    moreover have "inj_on f (set ys)" "x \<in> set ys" using Cons.prems False by (auto simp: inj_on_def)
    ultimately show ?thesis using Cons.IH False by auto
  qed
qed

lemma set_cons_remove1: "x \<in> set xs \<Longrightarrow> set (x # remove1 x xs) = set xs"
proof (induction xs)
  case Nil
  then show ?case by simp
next
  case (Cons y ys)
  then show ?case by (cases "x = y") auto
qed

lemma linkedI:
  assumes "dll s' xs'" "distinct (map fst (l_cache s'))" "set xs' = set (map snd (l_cache s'))"
    "\<forall>e\<in>set (l_cache s'). nkey (l_heap s' ! snd e) = fst e"
  shows "linked s' xs'"
  using assms by (simp add: linked_def del: set_map)

lemma sim_get:
  assumes "linked s xs"
  shows "\<exists>xs'. linked (snd (l_get k s)) xs'"
    and "view (snd (l_get k s)) = snd (lru_get k (view s))"
    and "fst (l_get k s) = fst (lru_get k (view s))"
proof -
  have vs: "view s = \<lparr>capacity = l_capacity s, cache = entries s,
      chain = map (\<lambda>node. nkey (l_heap s ! node)) xs\<rparr>"
    using view_linked[OF assms] .
  show "\<exists>xs'. linked (snd (l_get k s)) xs'"
    and "view (snd (l_get k s)) = snd (lru_get k (view s))"
    and "fst (l_get k s) = fst (lru_get k (view s))"
  proof (atomize (full), cases "map_of (l_cache s) k")
    case None
    then show "(\<exists>xs'. linked (snd (l_get k s)) xs')
      \<and> view (snd (l_get k s)) = snd (lru_get k (view s))
      \<and> fst (l_get k s) = fst (lru_get k (view s))"
      using assms by (auto simp: l_get_def lru_get_def vs map_of_entries)
  next
    case (Some node)
    let ?s' = "l_moveToFront node s"
    have d: "dll s xs" using assms by (simp add: linked_def)
    note nd = linked_lookup[OF assms Some]
    note mv = moveToFront_dll[OF d nd(1)]
    have st: "set (node # remove1 node xs) = set xs" using nd(1) by (rule set_cons_remove1)
    have l': "linked ?s' (node # remove1 node xs)"
    proof (rule linkedI)
      show "dll ?s' (node # remove1 node xs)" using mv by simp
      show "distinct (map fst (l_cache ?s'))" using mv assms by (simp add: linked_def)
      show "set (node # remove1 node xs) = set (map snd (l_cache ?s'))"
        using st mv assms by (simp add: linked_def del: set_map)
      show "\<forall>e\<in>set (l_cache ?s'). nkey (l_heap ?s' ! snd e) = fst e"
        using mv assms by (simp add: linked_def)
    qed
    have dk: "distinct (map (\<lambda>node. nkey (l_heap s ! node)) xs)"
      using linked_inv[OF assms] by (simp add: vs lru_inv_def)
    have ch: "map (\<lambda>a. nkey (l_heap ?s' ! a)) (node # remove1 node xs)
        = moveToFront k (map (\<lambda>a. nkey (l_heap s ! a)) xs)"
      using mv nd remove1_map_inj[OF linked_inj[OF assms] nd(1)]
      by (simp add: moveToFront_eq[OF dk])
    have en: "entries ?s' = entries s" using mv by (simp add: entries_def)
    have "view ?s' = snd (lru_get k (view s))"
      using ch en mv Some
      by (simp add: view_linked[OF l'] lru_get_def vs map_of_entries)
    moreover have "fst (l_get k s) = fst (lru_get k (view s))"
      using mv Some by (simp add: l_get_def lru_get_def vs map_of_entries Let_def)
    ultimately show "(\<exists>xs'. linked (snd (l_get k s)) xs')
      \<and> view (snd (l_get k s)) = snd (lru_get k (view s))
      \<and> fst (l_get k s) = fst (lru_get k (view s))"
      using l' Some by (auto simp: l_get_def Let_def)
  qed
qed

lemma seg_same:
  assumes "seg h p xs q" "length h \<le> length h'"
    "\<forall>x\<in>set xs. nprev (h' ! x) = nprev (h ! x) \<and> nnext (h' ! x) = nnext (h ! x)"
  shows "seg h' p xs q"
  using assms by (induction xs arbitrary: p) auto

lemma dll_same:
  assumes "dll s xs" "length (l_heap s) \<le> length (l_heap s')"
    "\<forall>x\<in>set xs. nprev (l_heap s' ! x) = nprev (l_heap s ! x)
        \<and> nnext (l_heap s' ! x) = nnext (l_heap s ! x)"
    "l_head s' = l_head s" "l_tail s' = l_tail s"
  shows "dll s' xs"
  using assms seg_same[of "l_heap s" None xs None "l_heap s'"] by (simp add: dll_def)

lemma map_upd_absent:
  "k \<notin> set (map fst m) \<Longrightarrow> map (\<lambda>e. (fst e, if fst e = k then v else snd e)) m = m"
  by (induction m) auto

lemma Map_set_map:
  "distinct (map fst m) \<Longrightarrow> k \<in> set (map fst m) \<Longrightarrow>
   Map_set k v m = map (\<lambda>e. (fst e, if fst e = k then v else snd e)) m"
proof (induction m)
  case Nil
  then show ?case by simp
next
  case (Cons e m)
  obtain k' x where e: "e = (k', x)" by (cases e)
  show ?case
  proof (cases "k' = k")
    case True
    then have "k \<notin> set (map fst m)" using Cons.prems(1) e by simp
    then have "map (\<lambda>e. (fst e, if fst e = k then v else snd e)) m = m"
      by (rule map_upd_absent)
    then show ?thesis using True e by simp
  next
    case False
    then have "k \<in> set (map fst m)" "distinct (map fst m)" using Cons.prems e by auto
    then have "Map_set k v m = map (\<lambda>e. (fst e, if fst e = k then v else snd e)) m"
      using Cons.IH by simp
    then show ?thesis using False e by simp
  qed
qed

lemma removeNode_cache_commute:
  "l_removeNode x (s\<lparr>l_cache := m\<rparr>) = (l_removeNode x s)\<lparr>l_cache := m\<rparr>"
  by (simp add: l_removeNode_def assign_def Let_def split: option.splits)

lemma dll_cache [simp]: "dll (s\<lparr>l_cache := m\<rparr>) xs = dll s xs"
  by (simp add: dll_def)

lemma Map_set_absent: "k \<notin> set (map fst m) \<Longrightarrow> Map_set k v m = m @ [(k, v)]"
  by (induction m) auto

lemma Map_delete_map:
  "Map_delete k (map (\<lambda>(k', n). (k', g n)) m) = map (\<lambda>(k', n). (k', g n)) (Map_delete k m)"
  by (induction m) (auto simp: Map_delete_def)

lemma Map_delete_snd:
  assumes "distinct (map fst m)" "(k, a) \<in> set m"
    "\<forall>e\<in>set m. \<forall>e'\<in>set m. snd e = snd e' \<longrightarrow> fst e = fst e'"
  shows "set (map snd (Map_delete k m)) = set (map snd m) - {a}"
proof -
  have "\<And>e. e \<in> set m \<Longrightarrow> (fst e \<noteq> k) = (snd e \<noteq> a)"
    using assms eq_key_imp_eq_value[OF assms(1)] by (metis fst_conv prod.collapse snd_conv)
  then show ?thesis by (auto simp: Map_delete_def)
qed

lemma linked_snd_inj:
  assumes "linked s xs"
  shows "\<forall>e\<in>set (l_cache s). \<forall>e'\<in>set (l_cache s). snd e = snd e' \<longrightarrow> fst e = fst e'"
proof (intro ballI impI)
  fix e e' assume e: "e \<in> set (l_cache s)" "e' \<in> set (l_cache s)" "snd e = snd e'"
  have a: "\<forall>e\<in>set (l_cache s). nkey (l_heap s ! snd e) = fst e"
    using assms by (simp add: linked_def)
  have "nkey (l_heap s ! snd e) = fst e" using a e(1) by blast
  moreover have "nkey (l_heap s ! snd e') = fst e'" using a e(2) by blast
  ultimately show "fst e = fst e'" using e(3) by simp
qed

lemma remove1_last: "distinct xs \<Longrightarrow> xs \<noteq> [] \<Longrightarrow> remove1 (last xs) xs = butlast xs"
  by (induction xs) (auto split: if_splits)

lemma unlink_sim:
  assumes l: "linked s xs" and m: "map_of (l_cache s) k = Some node"
  defines "s' \<equiv> l_removeNode node (s\<lparr>l_cache := Map_delete k (l_cache s)\<rparr>)"
  shows "linked s' (remove1 node xs)"
    and "view s' = (view s)\<lparr>cache := Map_delete k (cache (view s)),
            chain := remove1 k (chain (view s))\<rparr>"
    and "l_heap s' = l_heap (l_removeNode node s)"
    and "l_cache s' = Map_delete k (l_cache s)"
    and "length (l_heap s') = length (l_heap s)"
    and "\<forall>a. nkey (l_heap s' ! a) = nkey (l_heap s ! a)
            \<and> nvalue (l_heap s' ! a) = nvalue (l_heap s ! a)"
    and "l_capacity s' = l_capacity s"
proof -
  note nd = linked_lookup[OF l m]
  obtain as bs where xs: "xs = as @ node # bs" "node \<notin> set as"
    using split_at[OF nd(1)] by blast
  have d0: "dll s (as @ node # bs)" using l xs by (simp add: linked_def)
  have r: "remove1 node xs = as @ bs" using xs by (simp add: remove1_append)
  have s': "s' = (l_removeNode node s)\<lparr>l_cache := Map_delete k (l_cache s)\<rparr>"
    by (simp add: s'_def removeNode_cache_commute)
  note fr = removeNode_frame[OF d0]
  show hp: "l_heap s' = l_heap (l_removeNode node s)" by (simp add: s')
  show ch: "l_cache s' = Map_delete k (l_cache s)" by (simp add: s')
  show cap: "l_capacity s' = l_capacity s" using fr by (simp add: s')
  show "length (l_heap s') = length (l_heap s)" using fr by (simp add: hp)
  show "\<forall>a. nkey (l_heap s' ! a) = nkey (l_heap s ! a)
            \<and> nvalue (l_heap s' ! a) = nvalue (l_heap s ! a)" using fr by (simp add: hp)
  have dxs: "distinct xs" using l by (simp add: linked_def dll_def)
  have mem: "(k, node) \<in> set (l_cache s)" using m by (rule map_of_SomeD)
  have dk: "distinct (map fst (l_cache s))" using l by (simp add: linked_def)
  have sset: "set (map snd (Map_delete k (l_cache s))) = set (map snd (l_cache s)) - {node}"
    using Map_delete_snd[OF dk mem linked_snd_inj[OF l]] .
  show l': "linked s' (remove1 node xs)"
  proof (rule linkedI)
    show "dll s' (remove1 node xs)" using removeNode_dll[OF d0] r by (simp add: s')
    show "distinct (map fst (l_cache s'))" using dk by (simp add: ch Map_delete_distinct)
    have "set (remove1 node xs) = set xs - {node}" using dxs by simp
    then show "set (remove1 node xs) = set (map snd (l_cache s'))"
      using sset l by (simp add: ch linked_def del: set_map)
    show "\<forall>e\<in>set (l_cache s'). nkey (l_heap s' ! snd e) = fst e"
      using l fr by (auto simp: hp ch linked_def Map_delete_def)
  qed
  have en: "entries s' = Map_delete k (entries s)"
    using fr by (simp add: entries_def hp ch Map_delete_map)
  have "map (\<lambda>a. nkey (l_heap s' ! a)) (remove1 node xs)
      = remove1 k (map (\<lambda>a. nkey (l_heap s ! a)) xs)"
    using fr nd remove1_map_inj[OF linked_inj[OF l] nd(1)] by (simp add: hp)
  then show "view s' = (view s)\<lparr>cache := Map_delete k (cache (view s)),
            chain := remove1 k (chain (view s))\<rparr>"
    using en cap by (simp add: view_linked[OF l'] view_linked[OF l])
qed

lemma map_of_entries_None: "(map_of (entries s) k = None) = (map_of (l_cache s) k = None)"
  by (simp add: map_of_entries)

lemma sim_delete:
  assumes "linked s xs"
  shows "\<exists>xs'. linked (snd (l_delete k s)) xs'"
    and "view (snd (l_delete k s)) = snd (lru_delete k (view s))"
    and "fst (l_delete k s) = fst (lru_delete k (view s))"
proof (atomize (full), cases "map_of (l_cache s) k")
  case None
  then show "(\<exists>xs'. linked (snd (l_delete k s)) xs')
      \<and> view (snd (l_delete k s)) = snd (lru_delete k (view s))
      \<and> fst (l_delete k s) = fst (lru_delete k (view s))"
    using assms by (auto simp: l_delete_def lru_delete_def map_of_entries view_linked[OF assms])
next
  case (Some node)
  let ?s' = "l_removeNode node (s\<lparr>l_cache := Map_delete k (l_cache s)\<rparr>)"
  note u = unlink_sim[OF assms Some]
  have eq: "snd (l_delete k s) = ?s'"
    using Some by (simp add: l_delete_def Let_def removeNode_cache_commute)
      (simp add: l_removeNode_def assign_def Let_def split: option.splits)
  have "snd (lru_delete k (view s)) =
      (view s)\<lparr>cache := Map_delete k (cache (view s)), chain := remove1 k (chain (view s))\<rparr>"
    using Some by (simp add: lru_delete_def removeNode_def view_linked[OF assms] map_of_entries)
  moreover have "fst (l_delete k s) = fst (lru_delete k (view s))"
    using Some by (simp add: l_delete_def lru_delete_def Let_def view_linked[OF assms]
        map_of_entries)
  ultimately show "(\<exists>xs'. linked (snd (l_delete k s)) xs')
      \<and> view (snd (l_delete k s)) = snd (lru_delete k (view s))
      \<and> fst (l_delete k s) = fst (lru_delete k (view s))"
    using u(1,2) eq by auto
qed

lemma sim_clear:
  "linked (l_clear s) []" "view (l_clear s) = lru_clear (view s)"
proof -
  show l: "linked (l_clear s) []" by (simp add: linked_def dll_def l_clear_def)
  show "view (l_clear s) = lru_clear (view s)"
    by (simp add: view_linked[OF l] entries_def) (simp add: l_clear_def lru_clear_def view_def)
qed

lemma sim_put_existing:
  assumes l: "linked s xs" and m: "map_of (l_cache s) k = Some node"
  shows "linked (l_put k v s) (node # remove1 node xs)"
    and "view (l_put k v s) = lru_put k v (view s)"
proof -
  let ?s0 = "assign node (\<lambda>x. x\<lparr>nvalue := v\<rparr>) s"
  let ?s' = "l_moveToFront node ?s0"
  note nd = linked_lookup[OF l m]
  have eq: "l_put k v s = ?s'" using m by (simp add: l_put_def)
  have h0: "l_heap ?s0 = (l_heap s)[node := (l_heap s ! node)\<lparr>nvalue := v\<rparr>]"
    "l_cache ?s0 = l_cache s" "l_capacity ?s0 = l_capacity s"
    "l_head ?s0 = l_head s" "l_tail ?s0 = l_tail s"
    by (simp_all add: assign_def)
  have f0: "nkey (l_heap ?s0 ! a) = nkey (l_heap s ! a)"
    "nprev (l_heap ?s0 ! a) = nprev (l_heap s ! a)"
    "nnext (l_heap ?s0 ! a) = nnext (l_heap s ! a)"
    "nvalue (l_heap ?s0 ! a) = (if a = node then v else nvalue (l_heap s ! a))" for a
    using nd(3) by (simp_all add: h0 nth_update_cases)
  have d: "dll s xs" using l by (simp add: linked_def)
  have len0: "length (l_heap ?s0) = length (l_heap s)" by (simp add: h0(1))
  have d0: "dll ?s0 xs" by (rule dll_same[OF d]) (simp_all add: len0 f0 h0(4,5))
  have l0: "linked ?s0 xs"
    using l by (intro linkedI d0) (simp_all add: h0(2) f0 linked_def del: set_map)
  note mv = moveToFront_dll[OF d0 nd(1)]
  have st: "set (node # remove1 node xs) = set xs" using nd(1) by (rule set_cons_remove1)
  show l': "linked (l_put k v s) (node # remove1 node xs)"
    unfolding eq
  proof (rule linkedI)
    show "dll ?s' (node # remove1 node xs)" using mv by simp
    show "distinct (map fst (l_cache ?s'))" using mv l by (simp add: h0(2) linked_def)
    show "set (node # remove1 node xs) = set (map snd (l_cache ?s'))"
      using st mv l by (simp add: h0(2) linked_def del: set_map)
    show "\<forall>e\<in>set (l_cache ?s'). nkey (l_heap ?s' ! snd e) = fst e"
      using mv l by (simp add: h0(2) f0 linked_def)
  qed
  have dk: "distinct (map fst (l_cache s))" using l by (simp add: linked_def)
  have mem: "(k, node) \<in> set (l_cache s)" using m by (rule map_of_SomeD)
  have iff: "(snd e = node) = (fst e = k)" if "e \<in> set (l_cache s)" for e
  proof
    assume "snd e = node"
    then show "fst e = k"
      using linked_snd_inj[OF l, rule_format, of e "(k, node)"] that mem by simp
  next
    assume "fst e = k"
    then have "(k, snd e) \<in> set (l_cache s)" using that by (cases e) auto
    then show "snd e = node" using eq_key_imp_eq_value[OF dk _ mem] by simp
  qed
  have kin: "k \<in> set (map fst (entries s))" using mem by (force simp: entries_keys)
  have vals: "nvalue (l_heap ?s' ! snd e) = (if fst e = k then v else nvalue (l_heap s ! snd e))"
    if "e \<in> set (l_cache s)" for e
    using mv iff[OF that] by (simp add: f0)
  have "entries ?s' = map (\<lambda>e. (fst e, nvalue (l_heap ?s' ! snd e))) (l_cache s)"
    using mv by (simp add: entries_def h0(2) case_prod_beta)
  also have "\<dots> = map (\<lambda>e. (fst e, if fst e = k then v else nvalue (l_heap s ! snd e))) (l_cache s)"
    by (rule map_cong[OF refl]) (simp add: vals)
  also have "\<dots> = map (\<lambda>e. (fst e, if fst e = k then v else snd e)) (entries s)"
    by (simp add: entries_def case_prod_beta comp_def)
  finally have "entries ?s' = map (\<lambda>e. (fst e, if fst e = k then v else snd e)) (entries s)" .
  then have en: "entries ?s' = Map_set k v (entries s)"
    using Map_set_map[of "entries s" k v] dk kin by (simp add: entries_keys)
  have ch: "map (\<lambda>a. nkey (l_heap ?s' ! a)) (node # remove1 node xs)
      = k # remove1 k (map (\<lambda>a. nkey (l_heap s ! a)) xs)"
    using mv nd remove1_map_inj[OF linked_inj[OF l] nd(1)] by (simp add: f0)
  have a: "map_of (cache (view s)) k = Some (nvalue (l_heap s ! node))"
    using m by (simp add: view_linked[OF l] map_of_entries)
  have "view ?s' = (view s)\<lparr>cache := Map_set k v (cache (view s)),
      chain := k # remove1 k (chain (view s))\<rparr>"
    using en ch mv l' by (simp add: view_linked[OF l'[unfolded eq]] view_linked[OF l] h0(3))
  then show "view (l_put k v s) = lru_put k v (view s)"
    using put_existing[OF linked_inv[OF l] a, of v] by (simp add: eq)
qed

lemma alloc_sim:
  fixes nn :: "('k, 'v) LRUCacheNode"
  assumes l: "linked s xs"
  defines "s1 \<equiv> s\<lparr>l_heap := l_heap s @ [nn]\<rparr>"
  shows "linked s1 xs" and "view s1 = view s"
    and "\<forall>a < length (l_heap s). l_heap s1 ! a = l_heap s ! a"
proof -
  have b: "\<forall>x\<in>set xs. x < length (l_heap s)"
    using l seg_bound[of "l_heap s" None xs None] by (auto simp: linked_def dll_def)
  have old: "l_heap s1 ! a = l_heap s ! a" if "a < length (l_heap s)" for a
    using that by (simp add: s1_def nth_append)
  then show "\<forall>a < length (l_heap s). l_heap s1 ! a = l_heap s ! a" by simp
  have d: "dll s xs" using l by (simp add: linked_def)
  have d1: "dll s1 xs"
    by (rule dll_same[OF d]) (use b old in \<open>auto simp: s1_def\<close>)
  have cb: "\<forall>e\<in>set (l_cache s). snd e < length (l_heap s)"
  proof
    fix e assume "e \<in> set (l_cache s)"
    then have "snd e \<in> set (map snd (l_cache s))" by simp
    then have "snd e \<in> set xs" using l by (simp add: linked_def del: set_map)
    then show "snd e < length (l_heap s)" using b by blast
  qed
  show l1: "linked s1 xs"
  proof (rule linkedI[OF d1])
    show "distinct (map fst (l_cache s1))" using l by (simp add: s1_def linked_def)
    show "set xs = set (map snd (l_cache s1))" using l by (simp add: s1_def linked_def del: set_map)
    show "\<forall>e\<in>set (l_cache s1). nkey (l_heap s1 ! snd e) = fst e"
      using l cb old by (simp add: linked_def) (simp add: s1_def)
  qed
  have "entries s1 = entries s"
    unfolding entries_def using cb old by (auto simp: s1_def intro!: map_cong)
  moreover have "map (\<lambda>a. nkey (l_heap s1 ! a)) xs = map (\<lambda>a. nkey (l_heap s ! a)) xs"
    using b old by (auto intro!: map_cong)
  ultimately show "view s1 = view s"
    by (simp add: view_linked[OF l1] view_linked[OF l]) (simp add: s1_def)
qed

lemma put_finish:
  assumes l: "linked s xs" and none: "map_of (l_cache s) k = None"
    and lt: "new < length (l_heap s)" and nin: "new \<notin> set xs"
    and kv: "nkey (l_heap s ! new) = k" "nvalue (l_heap s ! new) = v"
  defines "s' \<equiv> l_addToFront new (s\<lparr>l_cache := Map_set k new (l_cache s)\<rparr>)"
  shows "linked s' (new # xs)"
    and "view s' = (view s)\<lparr>cache := Map_set k v (cache (view s)), chain := k # chain (view s)\<rparr>"
proof -
  let ?s3 = "s\<lparr>l_cache := Map_set k new (l_cache s)\<rparr>"
  have d3: "dll ?s3 xs" using l by (simp add: linked_def)
  note fr = addToFront_frame[OF d3, of new]
  have d': "dll s' (new # xs)" unfolding s'_def using lt nin by (intro addToFront_dll[OF d3]) simp_all
  have nk: "k \<notin> set (map fst (l_cache s))" using none by (simp add: map_of_eq_None_iff)
  have cs: "l_cache s' = l_cache s @ [(k, new)]"
    using fr(1) nk by (simp add: s'_def Map_set_absent del: set_map)
  have hk: "nkey (l_heap s' ! a) = nkey (l_heap s ! a)"
    "nvalue (l_heap s' ! a) = nvalue (l_heap s ! a)" for a
    using fr(4,5) by (simp_all add: s'_def)
  show l': "linked s' (new # xs)"
  proof (rule linkedI[OF d'])
    show "distinct (map fst (l_cache s'))" using l nk by (simp add: cs linked_def del: set_map)
    show "set (new # xs) = set (map snd (l_cache s'))"
      using l by (simp add: cs linked_def del: set_map)
    show "\<forall>e\<in>set (l_cache s'). nkey (l_heap s' ! snd e) = fst e"
      using l kv by (auto simp: cs hk linked_def)
  qed
  have "entries s' = entries s @ [(k, v)]" using kv by (simp add: entries_def cs hk)
  then have en: "entries s' = Map_set k v (entries s)"
    using nk by (simp add: Map_set_absent entries_keys del: set_map)
  have cap: "l_capacity s' = l_capacity s" using fr(2) by (simp add: s'_def)
  show "view s' = (view s)\<lparr>cache := Map_set k v (cache (view s)), chain := k # chain (view s)\<rparr>"
    using en cap kv by (simp add: view_linked[OF l'] view_linked[OF l] hk)
qed

lemma sim_put_new:
  assumes l: "linked s xs" and none: "map_of (l_cache s) k = None"
  shows "\<exists>xs'. linked (l_put k v s) xs'"
    and "view (l_put k v s) = lru_put k v (view s)"
proof -
  let ?nn = "\<lparr>nkey = k, nvalue = v, nprev = None, nnext = None\<rparr>"
  let ?new = "length (l_heap s)"
  let ?s1 = "s\<lparr>l_heap := l_heap s @ [?nn]\<rparr>"
  note al = alloc_sim[OF l, of ?nn]
  have l1: "linked ?s1 xs" using al(1) .
  have v1: "view ?s1 = view s" using al(2) .
  have b: "\<forall>x\<in>set xs. x < ?new"
    using l seg_bound[of "l_heap s" None xs None] by (auto simp: linked_def dll_def)
  have tl1: "l_tail ?s1 = lasto xs None" using l by (simp add: linked_def dll_def)
  have none1: "map_of (l_cache ?s1) k = None" using none by simp
  have new1: "?new < length (l_heap ?s1)" "nkey (l_heap ?s1 ! ?new) = k"
    "nvalue (l_heap ?s1 ! ?new) = v" by simp_all
  have vs: "view s = \<lparr>capacity = l_capacity s, cache = entries s,
      chain = map (\<lambda>node. nkey (l_heap s ! node)) xs\<rparr>"
    using view_linked[OF l] .
  have anone: "map_of (cache (view s)) k = None" using none by (simp add: vs map_of_entries)
  have len: "length (cache (view s)) = length (l_cache s)" by (simp add: vs entries_def)
  show "\<exists>xs'. linked (l_put k v s) xs'" and "view (l_put k v s) = lru_put k v (view s)"
  proof (atomize (full), cases "l_capacity s \<le> int (length (l_cache s)) \<and> xs \<noteq> []")
    case True
    then have ne: "xs \<noteq> []" and cap: "l_capacity s \<le> int (length (l_cache s))" by simp_all
    let ?t = "last xs"
    let ?kt = "nkey (l_heap ?s1 ! ?t)"
    have tin: "?t \<in> set xs" using ne by simp
    have kt: "?kt = nkey (l_heap s ! ?t)" using b tin by (simp add: nth_append)
    have "(?kt, ?t) \<in> set (l_cache ?s1)" using linked_node_key[OF l1 tin] .
    moreover have "distinct (map fst (l_cache ?s1))" using l1 by (simp add: linked_def)
    ultimately have mt: "map_of (l_cache ?s1) ?kt = Some ?t" by (rule map_of_is_SomeI[rotated])
    let ?s2 = "l_removeNode ?t (?s1\<lparr>l_cache := Map_delete ?kt (l_cache ?s1)\<rparr>)"
    note u = unlink_sim[OF l1 mt]
    have dxs: "distinct xs" using l by (simp add: linked_def dll_def)
    have "k \<notin> set (map fst (l_cache s))" using none by (simp add: map_of_eq_None_iff)
    then have "k \<notin> set (map fst (Map_delete ?kt (l_cache ?s1)))"
      by (simp add: Map_delete_keys del: set_map)
    then have "map_of (Map_delete ?kt (l_cache ?s1)) k = None"
      by (simp add: map_of_eq_None_iff)
    then have none2: "map_of (l_cache ?s2) k = None" by (simp only: u(4))
    have new2: "?new < length (l_heap ?s2)" "?new \<notin> set (remove1 ?t xs)"
      "nkey (l_heap ?s2 ! ?new) = k" "nvalue (l_heap ?s2 ! ?new) = v"
      using u(5,6) b by (auto dest: notin_set_remove1)
    note pf = put_finish[OF u(1) none2 new2]
    have eq: "l_put k v s = l_addToFront ?new (?s2\<lparr>l_cache := Map_set k ?new (l_cache ?s2)\<rparr>)"
      using none cap ne tl1 by (simp add: l_put_def Let_def lasto_nonempty)
    have lastc: "last (chain (view s)) = ?kt" using ne kt by (simp add: vs last_map)
    have ane: "chain (view s) \<noteq> []" using ne by (simp add: vs)
    have acap: "capacity (view s) \<le> int (length (cache (view s)))"
      using cap len by (simp add: vs)
    have "lru_put k v (view s) =
        (view s)\<lparr>cache := Map_set k v (Map_delete ?kt (cache (view s))),
          chain := k # remove1 ?kt (chain (view s))\<rparr>"
      using put_new_full[OF linked_inv[OF l] anone acap ane, of v] lastc by simp
    then have "view (l_put k v s) = lru_put k v (view s)"
      using pf(2) u(2) v1 by (simp add: eq)
    then show "(\<exists>xs'. linked (l_put k v s) xs') \<and> view (l_put k v s) = lru_put k v (view s)"
      using pf(1) eq by auto
  next
    case False
    have new1': "?new \<notin> set xs" using b by auto
    note pf = put_finish[OF l1 none1 new1(1) new1' new1(2,3)]
    have eq: "l_put k v s = l_addToFront ?new (?s1\<lparr>l_cache := Map_set k ?new (l_cache ?s1)\<rparr>)"
    proof (cases "l_capacity s \<le> int (length (l_cache s))")
      case True
      then have "xs = []" using False by simp
      then have "l_tail ?s1 = None" using tl1 by simp
      then show ?thesis using none True by (simp add: l_put_def Let_def)
    next
      case False
      then show ?thesis using none by (simp add: l_put_def Let_def)
    qed
    have afalse: "\<not> (capacity (view s) \<le> int (length (cache (view s))) \<and> chain (view s) \<noteq> [])"
      using False len by (simp add: vs)
    have "lru_put k v (view s) =
        (view s)\<lparr>cache := Map_set k v (cache (view s)), chain := k # chain (view s)\<rparr>"
      using put_new_room[OF anone afalse, of v] .
    then have "view (l_put k v s) = lru_put k v (view s)"
      using pf(2) v1 by (simp add: eq)
    then show "(\<exists>xs'. linked (l_put k v s) xs') \<and> view (l_put k v s) = lru_put k v (view s)"
      using pf(1) eq by auto
  qed
qed

lemma sim_put:
  assumes "linked s xs"
  shows "\<exists>xs'. linked (l_put k v s) xs'" and "view (l_put k v s) = lru_put k v (view s)"
proof (atomize (full), cases "map_of (l_cache s) k")
  case None
  then show "(\<exists>xs'. linked (l_put k v s) xs') \<and> view (l_put k v s) = lru_put k v (view s)"
    using sim_put_new[OF assms None, of v] by simp
next
  case (Some node)
  then show "(\<exists>xs'. linked (l_put k v s) xs') \<and> view (l_put k v s) = lru_put k v (view s)"
    using sim_put_existing[OF assms Some, of v] by blast
qed

lemma sim_step:
  assumes "linked s xs"
  shows "\<exists>xs'. linked (l_step x s) xs'" and "view (l_step x s) = step x (view s)"
proof (atomize (full), cases x)
  case (Get k)
  then show "(\<exists>xs'. linked (l_step x s) xs') \<and> view (l_step x s) = step x (view s)"
    using sim_get[OF assms, of k] by simp
next
  case (Put k v)
  then show "(\<exists>xs'. linked (l_step x s) xs') \<and> view (l_step x s) = step x (view s)"
    using sim_put[OF assms, of k v] by simp
next
  case (Delete k)
  then show "(\<exists>xs'. linked (l_step x s) xs') \<and> view (l_step x s) = step x (view s)"
    using sim_delete[OF assms, of k] by simp
next
  case Clear
  then show "(\<exists>xs'. linked (l_step x s) xs') \<and> view (l_step x s) = step x (view s)"
    using sim_clear[of s] by auto
qed

lemma sim_run:
  assumes "linked s xs"
  shows "(\<exists>xs'. linked (l_run ops s) xs') \<and> view (l_run ops s) = run ops (view s)"
  using assms
proof (induction ops arbitrary: s xs)
  case Nil
  then show ?case by (auto simp: l_run_def run_def)
next
  case (Cons x ops)
  obtain xs' where l': "linked (l_step x s) xs'" using sim_step(1)[OF Cons.prems] by blast
  show ?case using Cons.IH[OF l'] sim_step(2)[OF Cons.prems, of x]
    by (simp add: l_run_def run_def)
qed

lemma linked_new: "linked (new_LinkedLRU n) []"
  by (simp add: linked_def dll_def new_LinkedLRU_def)

lemma view_new: "view (new_LinkedLRU n) = new_LRUCache n"
  by (simp add: view_def new_LinkedLRU_def new_LRUCache_def)

lemma linked_list_implements_view:
  "(\<exists>xs. linked (l_run ops (new_LinkedLRU n)) xs)
   \<and> view (l_run ops (new_LinkedLRU n)) = run ops (new_LRUCache n)"
  using sim_run[OF linked_new, of ops n] by (simp add: view_new)

lemma obs_has: "l_has k s = lru_has k (view s)"
  by (simp add: l_has_def lru_has_def view_def map_of_map case_prod_beta)

lemma obs_size: "l_size s = lru_size (view s)"
  by (simp add: l_size_def lru_size_def view_def)

lemma obs_forEach: "l_forEach callback s st = lru_forEach callback (view s) st"
  by (simp add: l_forEach_def lru_forEach_def view_def fold_map comp_def case_prod_beta
      cong: fold_cong)

lemma obs_keys: "map fst (cache (view s)) = map fst (l_cache s)"
  by (simp add: view_def case_prod_beta comp_def)

lemma touched_view: "l_touched x s = touched x (view s)"
  by (cases x) (simp_all add: obs_has)

lemma touch_times_view:
  "linked s xs \<Longrightarrow> l_touch_times ops s t T = touch_times ops (view s) t T"
proof (induction ops arbitrary: s xs t T)
  case Nil
  show ?case by simp
next
  case (Cons x ops)
  obtain xs' where l': "linked (l_step x s) xs'" using sim_step(1)[OF Cons.prems] by blast
  show ?case
    using Cons.IH[OF l'] sim_step(2)[OF Cons.prems, of x] by (simp add: touched_view)
qed

lemma last_touch_view: "l_last_touch n ops = last_touch n ops"
  using touch_times_view[OF linked_new, of ops n 0 "\<lambda>_. 0"]
  by (simp add: l_last_touch_def last_touch_def view_new)

text \<open>
  C4, as stated, fails for a capacity below one: the guard \<open>if (this.tail)\<close> lets a
  \<open>put\<close> into an empty store through, so a store of capacity 0 holds one entry.
\<close>

theorem lru_capacity_zero_counterexample:
  "\<not> int (l_size (l_run [Put ''a'' ''u''] (new_LinkedLRU 0))) \<le> 0"
  by code_simp

text \<open>
  C4 (amended): after every sequence of get/put/delete/clear operations on a store
  constructed with capacity \<open>N\<close>, the store holds at most \<open>max N 1\<close> entries, so at most
  \<open>N\<close> when \<open>N \<ge> 1\<close>. When \<open>N \<ge> 1\<close> and a \<open>put\<close> of a new key occurs while \<open>N\<close> entries are
  present, exactly one entry leaves: the key whose last touch is the earliest among the
  keys present, where a touch is a \<open>put\<close> of the key or a \<open>get\<close> that hits it. Every
  touch makes the key's node the \<open>head\<close> of the list.
\<close>

theorem lru_capacity_and_eviction:
  fixes ops :: "('k, 'v) op list"
  shows
  "int (l_size (l_run ops (new_LinkedLRU n))) \<le> max n 1
   \<and> (1 \<le> n \<longrightarrow> int (l_size (l_run ops (new_LinkedLRU n))) \<le> n)
   \<and> (1 \<le> n \<and> \<not> l_has k (l_run ops (new_LinkedLRU n))
        \<and> int (l_size (l_run ops (new_LinkedLRU n))) = n \<longrightarrow>
       (\<exists>victim.
          least_recently_touched (l_last_touch n ops)
              (map fst (l_cache (l_run ops (new_LinkedLRU n)))) = Some victim
          \<and> l_has victim (l_run ops (new_LinkedLRU n))
          \<and> (\<forall>k'. l_has k' (l_run ops (new_LinkedLRU n)) \<and> k' \<noteq> victim \<longrightarrow>
                 l_last_touch n ops victim < l_last_touch n ops k')
          \<and> (\<forall>x. l_has x (l_put k v (l_run ops (new_LinkedLRU n))) =
                 (x = k \<or> (l_has x (l_run ops (new_LinkedLRU n)) \<and> x \<noteq> victim)))))
   \<and> (\<forall>x k'. l_touched x (l_run ops (new_LinkedLRU n)) = Some k' \<longrightarrow>
         (\<exists>node. l_head (l_step x (l_run ops (new_LinkedLRU n))) = Some node
            \<and> nkey (l_heap (l_step x (l_run ops (new_LinkedLRU n))) ! node) = k'))"
proof -
  define s :: "('k, 'v) LinkedLRU" where "s = l_run ops (new_LinkedLRU n)"
  obtain xs where l: "linked s xs" and v: "view s = run ops (new_LRUCache n)"
    using linked_list_implements_view[of ops n] by (auto simp: s_def)
  note a = view_capacity_and_eviction[of ops n k v, folded v]
  have head: "\<exists>node. l_head (l_step x s) = Some node \<and> nkey (l_heap (l_step x s) ! node) = k'"
    if t: "l_touched x s = Some k'" for x k'
  proof -
    obtain xs' where l': "linked (l_step x s) xs'" using sim_step(1)[OF l] by blast
    have "touched x (view s) = Some k'" using t by (simp add: touched_view)
    then obtain rest where "chain (step x (view s)) = k' # rest" using a by blast
    then have c: "chain (view (l_step x s)) = k' # rest" using sim_step(2)[OF l, of x] by simp
    then obtain node ys where xs': "xs' = node # ys" "nkey (l_heap (l_step x s) ! node) = k'"
      using view_linked[OF l'] by (cases xs') auto
    then have "l_head (l_step x s) = Some node" using l' by (simp add: linked_def dll_def)
    then show ?thesis using xs' by blast
  qed
  have vp: "view (l_put k v s) = lru_put k v (view s)" using sim_put(2)[OF l] .
  show ?thesis
    unfolding s_def[symmetric]
    using a head
    by (simp only: obs_has obs_size last_touch_view vp obs_keys[symmetric]) blast
qed

theorem lru_capacity_and_eviction_witness:
  "int (l_size (l_run [Put ''a'' ''u'', Put ''b'' ''v'', Get ''a''] (new_LinkedLRU 2))) \<le> 2
   \<and> \<not> l_has ''c'' (l_run [Put ''a'' ''u'', Put ''b'' ''v'', Get ''a''] (new_LinkedLRU 2))
   \<and> least_recently_touched (l_last_touch 2 [Put ''a'' ''u'', Put ''b'' ''v'', Get ''a''])
        (map fst (l_cache (l_run [Put ''a'' ''u'', Put ''b'' ''v'', Get ''a''] (new_LinkedLRU 2))))
       = Some ''b''
   \<and> \<not> l_has ''b''
        (l_put ''c'' ''w'' (l_run [Put ''a'' ''u'', Put ''b'' ''v'', Get ''a''] (new_LinkedLRU 2)))
   \<and> l_has ''a''
        (l_put ''c'' ''w'' (l_run [Put ''a'' ''u'', Put ''b'' ''v'', Get ''a''] (new_LinkedLRU 2)))"
proof -
  have e: "\<not> l_has ''c'' (l_run [Put ''a'' ''u'', Put ''b'' ''v'', Get ''a''] (new_LinkedLRU 2))"
    "least_recently_touched (l_last_touch 2 [Put ''a'' ''u'', Put ''b'' ''v'', Get ''a''])
        (map fst (l_cache (l_run [Put ''a'' ''u'', Put ''b'' ''v'', Get ''a''] (new_LinkedLRU 2))))
       = Some ''b''"
    "\<not> l_has ''b''
        (l_put ''c'' ''w'' (l_run [Put ''a'' ''u'', Put ''b'' ''v'', Get ''a''] (new_LinkedLRU 2)))"
    "l_has ''a''
        (l_put ''c'' ''w'' (l_run [Put ''a'' ''u'', Put ''b'' ''v'', Get ''a''] (new_LinkedLRU 2)))"
    by code_simp+
  have "int (l_size (l_run [Put ''a'' ''u'', Put ''b'' ''v'', Get ''a''] (new_LinkedLRU 2))) \<le> 2"
    using lru_capacity_and_eviction
      [of "[Put ''a'' ''u'', Put ''b'' ''v'', Get ''a'']" 2 "''c''" "''w''"]
    by simp
  then show ?thesis using e by (intro conjI)
qed

section \<open>Properties of the cache\<close>

subsection \<open>The scan finds the first eligible entry\<close>

lemma Math_max_ge:
  "(case Math_max xs of None \<Rightarrow> False | Some m \<Rightarrow> r \<le> m) = list_ex (\<lambda>x. r \<le> x) xs"
  by (cases xs) (auto simp: le_fold_max list_ex_iff)

lemma checkNodeDepth_Some:
  "checkNodeDepthSatisfiesRequirement d t (Some r) =
    (case findNodeInTree (nodes d) t of
       None \<Rightarrow> False
     | Some node \<Rightarrow> list_ex (\<lambda>root. r \<le> getNodeDepth root) (nodes d) \<or> r \<le> getNodeDepth node)"
  unfolding checkNodeDepthSatisfiesRequirement_def
  by (simp add: Math_max_ge[where xs = "map getNodeDepth (nodes d)" and r = r] list_ex_iff
      split: option.splits)

lemma visit_Some:
  "findNodeInCache_visit f t rd item key (Some x) = Some x"
  by (simp add: findNodeInCache_visit_def)

lemma visit_None:
  "findNodeInCache_visit f t rd item key None =
    (if candidate f t rd (key, item)
     then map_option (\<lambda>node. (finalNode rd node, item)) (findNodeInTree (nodes (data item)) t)
     else None)"
proof (cases rd)
  case None
  then show ?thesis
    by (auto simp: findNodeInCache_visit_def candidate_def eligible_def finalNode_def Let_def
        checkNodeDepthSatisfiesRequirement_def split: option.splits)
next
  case (Some r)
  then show ?thesis
    by (auto simp: findNodeInCache_visit_def candidate_def eligible_def finalNode_def Let_def
        checkNodeDepth_Some split: option.splits)
qed

lemma fold_visit_Some:
  "fold (\<lambda>(k, v). findNodeInCache_visit f t rd v k) es (Some x) = Some x"
  by (induction es) (auto simp: visit_Some)

lemma fold_visit_None:
  "fold (\<lambda>(k, v). findNodeInCache_visit f t rd v k) es None =
    (case List.find (candidate f t rd) es of
       None \<Rightarrow> None
     | Some (k, item) \<Rightarrow>
         map_option (\<lambda>node. (finalNode rd node, item)) (findNodeInTree (nodes (data item)) t))"
proof (induction es)
  case Nil
  show ?case by simp
next
  case (Cons e es)
  obtain k item where e: "e = (k, item)" by (cases e)
  show ?case
  proof (cases "candidate f t rd (k, item)")
    case True
    then obtain node where "findNodeInTree (nodes (data item)) t = Some node"
      by (auto simp: candidate_def eligible_def split: option.splits)
    then show ?thesis using True e by (simp add: visit_None fold_visit_Some)
  next
    case False
    then show ?thesis using e Cons by (simp add: visit_None)
  qed
qed

lemma findNodeInCache_find:
  "findNodeInCache f t rd c =
    (case List.find (candidate f t rd) (cache c) of
       None \<Rightarrow> None
     | Some (k, item) \<Rightarrow>
         map_option (\<lambda>node. (finalNode rd node, item)) (findNodeInTree (nodes (data item)) t))"
  by (simp add: findNodeInCache_def lru_forEach_def fold_visit_None)

lemma candidate_found:
  "candidate f t rd (k, item) \<Longrightarrow> \<exists>node. findNodeInTree (nodes (data item)) t = Some node"
  by (auto simp: candidate_def eligible_def split: option.splits)

lemma findNodeInCache_None:
  "(findNodeInCache f t rd c = None) = (List.find (candidate f t rd) (cache c) = None)"
proof (cases "List.find (candidate f t rd) (cache c)")
  case None
  then show ?thesis by (simp add: findNodeInCache_find)
next
  case (Some e)
  obtain k item where e: "e = (k, item)" by (cases e)
  have "candidate f t rd (k, item)" using Some e by (auto simp: find_Some_iff)
  then show ?thesis using Some e candidate_found[of f t rd k item]
    by (auto simp: findNodeInCache_find)
qed

subsection \<open>The two searches agree on the node\<close>

lemma preorder_depth_ge: "(n, k) \<in> set (preorder d ns) \<Longrightarrow> d \<le> k"
proof (induction d ns arbitrary: n k rule: preorder.induct)
  case (1 d)
  then show ?case by simp
next
  case (2 d m rest)
  then show ?case by (cases "children m") (auto split: option.splits, force+)
qed

lemma findNodeInTree_preorder:
  "findNodeInTree ns t = map_option fst (List.find (\<lambda>e. nid (fst e) = t) (preorder d ns))"
proof (induction ns t arbitrary: d rule: findNodeInTree.induct)
  case (1 targetId)
  show ?case by simp
next
  case (2 n rest targetId)
  show ?case
  proof (cases "nid n = targetId")
    case True
    then show ?thesis by simp
  next
    case False
    show ?thesis
    proof (cases "children n")
      case None
      then show ?thesis using False 2(1)[OF False None, of d] by simp
    next
      case (Some cs)
      show ?thesis
        using False Some 2(2)[OF False Some, of "d + 1"] 2(3)[OF False Some, of d]
        by (auto simp: find_append split: option.splits)
    qed
  qed
qed

lemma getNodeDepthFromRoot_preorder:
  "0 \<le> d \<Longrightarrow> getNodeDepthFromRoot ns t d =
     (case List.find (\<lambda>e. nid (fst e) = t) (preorder d ns) of
        None \<Rightarrow> - 1
      | Some e \<Rightarrow> snd e)"
proof (induction ns t d rule: getNodeDepthFromRoot.induct)
  case (1 targetId currentDepth)
  show ?case by simp
next
  case (2 n rest targetId currentDepth)
  show ?case
  proof (cases "nid n = targetId")
    case True
    then show ?thesis by simp
  next
    case False
    show ?thesis
    proof (cases "children n")
      case None
      then show ?thesis using False 2(1)[OF False None] 2(4) by simp
    next
      case (Some cs)
      have d1: "0 \<le> currentDepth + 1" using 2(4) by simp
      note ih1 = 2(2)[OF False Some d1]
      show ?thesis
      proof (cases "List.find (\<lambda>e. nid (fst e) = targetId) (preorder (currentDepth + 1) cs)")
        case None
        then have "getNodeDepthFromRoot cs targetId (currentDepth + 1) = - 1"
          using ih1 by simp
        then show ?thesis using False Some None 2(3)[OF False Some refl _ 2(4)]
          by (simp add: find_append)
      next
        case (Some e)
        then have "e \<in> set (preorder (currentDepth + 1) cs)" by (auto simp: find_Some_iff)
        then have "currentDepth + 1 \<le> snd e" using preorder_depth_ge[of "fst e" "snd e"] by simp
        then have "snd e \<noteq> - 1" using 2(4) by simp
        then show ?thesis using False \<open>children n = Some cs\<close> Some ih1
          by (simp add: find_append)
      qed
    qed
  qed
qed

subsection \<open>Clearing a file\<close>

lemma fold_collect_keys:
  "fold (\<lambda>(k, v) ks. if P k then ks @ [k] else ks) es acc = acc @ filter P (map fst es)"
  by (induction es arbitrary: acc) (auto simp: case_prod_beta)

lemma keysToDelete_eq:
  "lru_forEach (\<lambda>_ cacheKey ks. if P cacheKey then ks @ [cacheKey] else ks) c []
    = filter P (map fst (cache c))"
  using fold_collect_keys[of P "cache c" "[]"] by (simp add: lru_forEach_def)

lemma cache_lru_delete: "cache (snd (lru_delete k c)) = Map_delete k (cache c)"
proof (cases "map_of (cache c) k")
  case None
  then have "k \<notin> set (map fst (cache c))" using map_of_None_keys[of "cache c" k] by auto
  then show ?thesis using None by (simp add: lru_delete_def Map_delete_absent del: set_map)
next
  case (Some a)
  then show ?thesis by (simp add: lru_delete_def)
qed

lemma chain_lru_delete:
  "lru_inv c \<Longrightarrow> chain (snd (lru_delete k c)) = filter (\<lambda>x. x \<noteq> k) (chain c)"
proof (cases "map_of (cache c) k")
  case None
  assume inv: "lru_inv c"
  have "k \<notin> set (map fst (cache c))" using None map_of_None_keys[of "cache c" k] by auto
  then have "k \<notin> set (chain c)" using inv by (simp add: lru_inv_def del: set_map)
  then have "filter (\<lambda>x. x \<noteq> k) (chain c) = chain c" by (auto simp: filter_id_conv)
  then show ?thesis using None by (simp add: lru_delete_def)
next
  case (Some a)
  assume inv: "lru_inv c"
  then have "distinct (chain c)" by (simp add: lru_inv_def)
  then have "remove1 k (chain c) = filter (\<lambda>x. x \<noteq> k) (chain c)"
    by (simp add: distinct_remove1_removeAll removeAll_filter_not_eq) (metis)
  then show ?thesis using Some by (simp add: lru_delete_def removeNode_def)
qed

lemma capacity_lru_delete: "capacity (snd (lru_delete k c)) = capacity c"
  by (simp add: lru_delete_def split: option.splits)

lemma fold_delete_cache:
  "cache (fold (\<lambda>key c'. snd (lru_delete key c')) ks c) = filter (\<lambda>e. fst e \<notin> set ks) (cache c)"
proof (induction ks arbitrary: c)
  case Nil
  show ?case by simp
next
  case (Cons k ks)
  show ?case
    by (simp add: Cons.IH cache_lru_delete Map_delete_def)
qed

lemma fold_delete_chain:
  "lru_inv c \<Longrightarrow>
   chain (fold (\<lambda>key c'. snd (lru_delete key c')) ks c) = filter (\<lambda>x. x \<notin> set ks) (chain c)"
proof (induction ks arbitrary: c)
  case Nil
  show ?case by simp
next
  case (Cons k ks)
  show ?case
    using Cons.IH[OF inv_delete[OF Cons.prems, of k]] chain_lru_delete[OF Cons.prems, of k]
    by simp
qed

lemma fold_delete_capacity:
  "capacity (fold (\<lambda>key c'. snd (lru_delete key c')) ks c) = capacity c"
  by (induction ks arbitrary: c) (simp_all add: capacity_lru_delete)

lemma fold_delete_inv:
  "lru_inv c \<Longrightarrow> lru_inv (fold (\<lambda>key c'. snd (lru_delete key c')) ks c)"
  by (induction ks arbitrary: c) (simp_all add: inv_delete)

lemma clearFileCache_cache:
  "cache (clearFileCache f c) = filter (\<lambda>e. \<not> startsWith (fst e) (f @ '':'')) (cache c)"
  unfolding clearFileCache_def Let_def keysToDelete_eq fold_delete_cache
  by (rule filter_cong) (auto simp del: set_map, force)

lemma clearFileCache_chain:
  assumes "lru_inv c"
  shows "chain (clearFileCache f c) = filter (\<lambda>k. \<not> startsWith k (f @ '':'')) (chain c)"
proof -
  have "set (chain c) = set (map fst (cache c))"
    using assms by (simp add: lru_inv_def del: set_map)
  then show ?thesis
    unfolding clearFileCache_def Let_def keysToDelete_eq fold_delete_chain[OF assms]
    by (intro filter_cong) auto
qed

lemma clearFileCache_capacity: "capacity (clearFileCache f c) = capacity c"
  by (simp add: clearFileCache_def fold_delete_capacity)

lemma map_of_filter_keys:
  "map_of (filter (\<lambda>e. P (fst e)) m) k = (if P k then map_of m k else None)"
  by (induction m) auto

subsection \<open>Lookups\<close>

lemma finalNode_None: "finalNode None node = node"
  by (simp add: finalNode_def)

lemma finalNode_Some:
  "finalNode (Some r) node = (if 0 \<le> r then limitNodeDepth node r else node)"
  by (simp add: finalNode_def)

lemma depth_tag_visit:
  assumes "startsWith cacheKey (fileKey @ '':'')" "getCacheKeyDepthLimit cacheKey = Some lim"
  shows "(findNodeInCache_visit fileKey nodeId None cacheItem cacheKey None \<noteq> None) =
      (\<exists>node. findNodeInTree (nodes (data cacheItem)) nodeId = Some node
         \<and> getNodeDepthFromRoot (nodes (data cacheItem)) nodeId 0 + getNodeDepth node < lim)"
  using assms by (auto simp: visit_None candidate_def eligible_def split: option.splits)

lemma rootDepth_is_level:
  assumes "findNodeInTree ns t = Some node"
  shows "List.find (\<lambda>e. nid (fst e) = t) (preorder 0 ns)
      = Some (node, getNodeDepthFromRoot ns t 0)"
  using assms findNodeInTree_preorder[of ns t 0] getNodeDepthFromRoot_preorder[of 0 ns t]
  by (auto split: option.splits)

text \<open>
  C1: with no required depth, a candidate entry whose key has the depth tag \<open>lim\<close> makes
  the scan's result non-null exactly when the node is in the entry's snapshot and
  \<open>rootDepth + subtreeDepth < lim\<close>, where \<open>rootDepth\<close> is the level of the node found;
  the scan returns the node of the first eligible entry, as stored; and when no entry
  is eligible \<open>findNodeData\<close> returns not-found.
\<close>

theorem findNodeData_without_required_depth:
  "(startsWith cacheKey (fileKey @ '':'') \<and> getCacheKeyDepthLimit cacheKey = Some lim \<longrightarrow>
      (findNodeInCache_visit fileKey nodeId None cacheItem cacheKey None \<noteq> None) =
      (\<exists>node. findNodeInTree (nodes (data cacheItem)) nodeId = Some node
         \<and> getNodeDepthFromRoot (nodes (data cacheItem)) nodeId 0 + getNodeDepth node < lim))
   \<and> (getCacheKeyDepthLimit cacheKey = Some lim \<longrightarrow>
      eligible nodeId None (cacheKey, cacheItem) =
      (\<exists>node. findNodeInTree (nodes (data cacheItem)) nodeId = Some node
         \<and> getNodeDepthFromRoot (nodes (data cacheItem)) nodeId 0 + getNodeDepth node < lim))
   \<and> (\<forall>node. findNodeInTree (nodes (data cacheItem)) nodeId = Some node \<longrightarrow>
        List.find (\<lambda>e. nid (fst e) = nodeId) (preorder 0 (nodes (data cacheItem)))
          = Some (node, getNodeDepthFromRoot (nodes (data cacheItem)) nodeId 0))
   \<and> findNodeInCache fileKey nodeId None c =
       (case List.find (candidate fileKey nodeId None) (cache c) of
          None \<Rightarrow> None
        | Some (k, item) \<Rightarrow>
            map_option (\<lambda>node. (node, item)) (findNodeInTree (nodes (data item)) nodeId))
   \<and> (List.find (candidate fileKey nodeId None) (cache c) = None \<longrightarrow>
        findNodeData fileKey nodeId vp None c w = (None, c, w))"
proof -
  have 1: "findNodeInCache fileKey nodeId None c =
       (case List.find (candidate fileKey nodeId None) (cache c) of
          None \<Rightarrow> None
        | Some (k, item) \<Rightarrow>
            map_option (\<lambda>node. (node, item)) (findNodeInTree (nodes (data item)) nodeId))"
    by (simp add: findNodeInCache_find finalNode_None split: option.splits)
  have 2: "findNodeData fileKey nodeId vp None c w = (None, c, w)"
    if "List.find (candidate fileKey nodeId None) (cache c) = None"
    using that by (simp add: findNodeData_def findNodeInCache_find)
  have 3: "eligible nodeId None (cacheKey, cacheItem) =
      (\<exists>node. findNodeInTree (nodes (data cacheItem)) nodeId = Some node
         \<and> getNodeDepthFromRoot (nodes (data cacheItem)) nodeId 0 + getNodeDepth node < lim)"
    if "getCacheKeyDepthLimit cacheKey = Some lim"
    using that by (auto simp: eligible_def split: option.splits)
  show ?thesis using 1 2 3 depth_tag_visit rootDepth_is_level by blast
qed

theorem findNodeData_without_required_depth_witness:
  "startsWith ''file1:sufficient-parent:3'' (''file1'' @ '':'')
   \<and> getCacheKeyDepthLimit ''file1:sufficient-parent:3'' = Some 3
   \<and> findNodeInCache_visit ''file1'' ''deep-grandchild'' None
        \<lparr>data = mockDesign ''tagged'' [parentWithSufficientDepth],
         lastTouchedAt = Some ''2023-01-01T10:00:00Z''\<rparr>
        ''file1:sufficient-parent:3'' None \<noteq> None
   \<and> findNodeData ''file1'' ''deep-grandchild-2'' (Some (mockMeta (Some ''2023-01-02T10:00:00Z'')))
        None taggedCache 0 = (None, taggedCache, 0)"
proof -
  let ?item = "\<lparr>data = mockDesign ''tagged'' [parentWithSufficientDepth],
         lastTouchedAt = Some ''2023-01-01T10:00:00Z''\<rparr>"
  have h1: "startsWith ''file1:sufficient-parent:3'' (''file1'' @ '':'')" by code_simp
  have h2: "getCacheKeyDepthLimit ''file1:sufficient-parent:3'' = Some 3" by code_simp
  have f: "findNodeInTree (nodes (data ?item)) ''deep-grandchild''
      = Some (leaf ''deep-grandchild'' ''TEXT'')" by code_simp
  have g: "getNodeDepthFromRoot (nodes (data ?item)) ''deep-grandchild'' 0
      + getNodeDepth (leaf ''deep-grandchild'' ''TEXT'') < 3" by code_simp
  have n: "List.find (candidate ''file1'' ''deep-grandchild-2'' None) (cache taggedCache) = None"
    by code_simp
  note inst1 = findNodeData_without_required_depth
      [where cacheKey = "''file1:sufficient-parent:3''" and fileKey = "''file1''" and lim = 3
        and nodeId = "''deep-grandchild''" and cacheItem = ?item and c = taggedCache
        and vp = None and w = "0::nat"]
  note inst2 = findNodeData_without_required_depth
      [where cacheKey = "''file1:sufficient-parent:3''" and fileKey = "''file1''" and lim = 3
        and nodeId = "''deep-grandchild-2''" and cacheItem = ?item and c = taggedCache
        and vp = "Some (mockMeta (Some ''2023-01-02T10:00:00Z''))" and w = "0::nat"]
  have a: "findNodeInCache_visit ''file1'' ''deep-grandchild'' None ?item
        ''file1:sufficient-parent:3'' None \<noteq> None"
    using inst1[THEN conjunct1, rule_format, OF conjI[OF h1 h2]] f g by blast
  have b: "findNodeData ''file1'' ''deep-grandchild-2''
        (Some (mockMeta (Some ''2023-01-02T10:00:00Z''))) None taggedCache 0
      = (None, taggedCache, 0)"
    using inst2[THEN conjunct2, THEN conjunct2, THEN conjunct2, THEN conjunct2, rule_format, OF n] .
  show ?thesis using h1 h2 a b by (intro conjI)
qed

lemma required_depth_visit:
  assumes "startsWith cacheKey (fileKey @ '':'')"
  shows "(findNodeInCache_visit fileKey nodeId (Some r) cacheItem cacheKey None \<noteq> None) =
      (\<exists>node. findNodeInTree (nodes (data cacheItem)) nodeId = Some node
         \<and> (list_ex (\<lambda>root. r \<le> getNodeDepth root) (nodes (data cacheItem))
              \<or> r \<le> getNodeDepth node))"
  using assms by (auto simp: visit_None candidate_def eligible_def split: option.splits)

lemma list_ex_Max:
  "ns \<noteq> [] \<Longrightarrow>
   list_ex (\<lambda>root. r \<le> getNodeDepth root) ns = (r \<le> Max (set (map getNodeDepth ns)))"
  by (subst Max_ge_iff) (auto simp: list_ex_iff)

text \<open>
  C2: with a required depth \<open>r\<close>, a candidate entry makes the scan's result non-null
  exactly when the node is in the entry's snapshot and either the maximum depth over
  the snapshot's roots is at least \<open>r\<close> or the node's own depth is; the scan returns,
  from the first eligible entry, the depth-limited copy when \<open>r \<ge> 0\<close> and the stored
  node otherwise, and without validation \<open>findNodeData\<close> returns that node.
\<close>

theorem findNodeData_with_required_depth:
  "(startsWith cacheKey (fileKey @ '':'') \<longrightarrow>
      (findNodeInCache_visit fileKey nodeId (Some r) cacheItem cacheKey None \<noteq> None) =
      (\<exists>node. findNodeInTree (nodes (data cacheItem)) nodeId = Some node
         \<and> (list_ex (\<lambda>root. r \<le> getNodeDepth root) (nodes (data cacheItem))
              \<or> r \<le> getNodeDepth node)))
   \<and> eligible nodeId (Some r) (cacheKey, cacheItem) =
      (\<exists>node. findNodeInTree (nodes (data cacheItem)) nodeId = Some node
         \<and> (list_ex (\<lambda>root. r \<le> getNodeDepth root) (nodes (data cacheItem))
              \<or> r \<le> getNodeDepth node))
   \<and> (nodes (data cacheItem) \<noteq> [] \<longrightarrow>
        list_ex (\<lambda>root. r \<le> getNodeDepth root) (nodes (data cacheItem))
          = (r \<le> Max (set (map getNodeDepth (nodes (data cacheItem))))))
   \<and> findNodeInCache fileKey nodeId (Some r) c =
       (case List.find (candidate fileKey nodeId (Some r)) (cache c) of
          None \<Rightarrow> None
        | Some (k, item) \<Rightarrow>
            map_option (\<lambda>node. (if 0 \<le> r then limitNodeDepth node r else node, item))
              (findNodeInTree (nodes (data item)) nodeId))
   \<and> (0 \<le> r \<and> List.find (candidate fileKey nodeId (Some r)) (cache c) = Some (k, item)
        \<and> findNodeInTree (nodes (data item)) nodeId = Some node \<longrightarrow>
        findNodeData fileKey nodeId None (Some r) c w = (Some (limitNodeDepth node r), c, w))"
proof -
  have 1: "findNodeInCache fileKey nodeId (Some r) c =
       (case List.find (candidate fileKey nodeId (Some r)) (cache c) of
          None \<Rightarrow> None
        | Some (k, item) \<Rightarrow>
            map_option (\<lambda>node. (if 0 \<le> r then limitNodeDepth node r else node, item))
              (findNodeInTree (nodes (data item)) nodeId))"
    by (simp add: findNodeInCache_find finalNode_Some split: option.splits)
  have 2: "findNodeData fileKey nodeId None (Some r) c w = (Some (limitNodeDepth node r), c, w)"
    if "0 \<le> r" "List.find (candidate fileKey nodeId (Some r)) (cache c) = Some (k, item)"
      "findNodeInTree (nodes (data item)) nodeId = Some node"
    using that by (simp add: findNodeData_def 1)
  have 3: "eligible nodeId (Some r) (cacheKey, cacheItem) =
      (\<exists>node. findNodeInTree (nodes (data cacheItem)) nodeId = Some node
         \<and> (list_ex (\<lambda>root. r \<le> getNodeDepth root) (nodes (data cacheItem))
              \<or> r \<le> getNodeDepth node))"
    by (auto simp: eligible_def split: option.splits)
  show ?thesis using 1 2 3 required_depth_visit list_ex_Max by blast
qed

theorem findNodeData_with_required_depth_witness:
  "startsWith ''file1:node-1:default'' (''file1'' @ '':'')
   \<and> findNodeInCache_visit ''file1'' ''node-1'' (Some 1)
        \<lparr>data = mockDesign ''deep'' [mockNode1], lastTouchedAt = Some ''2023-01-01T10:00:00Z''\<rparr>
        ''file1:node-1:default'' None \<noteq> None
   \<and> findNodeData ''file1'' ''node-1'' None (Some 1) depthCache ()
       = (Some mockShallowNode1, depthCache, ())"
proof -
  let ?item = "\<lparr>data = mockDesign ''deep'' [mockNode1],
      lastTouchedAt = Some ''2023-01-01T10:00:00Z''\<rparr>"
  note inst = findNodeData_with_required_depth
      [where cacheKey = "''file1:node-1:default''" and fileKey = "''file1''" and r = 1
        and nodeId = "''node-1''" and cacheItem = ?item and c = depthCache
        and k = "''file1:node-1:default''" and item = ?item and node = mockNode1 and w = "()"]
  have h1: "startsWith ''file1:node-1:default'' (''file1'' @ '':'')" by code_simp
  have f: "findNodeInTree (nodes (data ?item)) ''node-1'' = Some mockNode1" by code_simp
  have g: "(1::int) \<le> getNodeDepth mockNode1" by code_simp
  have e: "List.find (candidate ''file1'' ''node-1'' (Some 1)) (cache depthCache)
      = Some (''file1:node-1:default'', ?item)" by code_simp
  have l: "limitNodeDepth mockNode1 1 = mockShallowNode1" by code_simp
  have a: "findNodeInCache_visit ''file1'' ''node-1'' (Some 1) ?item
        ''file1:node-1:default'' None \<noteq> None"
    using inst[THEN conjunct1, rule_format, OF h1] f g by blast
  have "findNodeData ''file1'' ''node-1'' None (Some 1) depthCache ()
       = (Some (limitNodeDepth mockNode1 1), depthCache, ())"
    using inst[THEN conjunct2, THEN conjunct2, THEN conjunct2, THEN conjunct2, rule_format,
        OF conjI[OF _ conjI[OF e f]]] by simp
  then show ?thesis using h1 a l by simp
qed

subsection \<open>Freshness\<close>

text \<open>
  C5: an entry whose stored marker is empty or absent is judged fresh and the world is
  left as it was, whatever \<open>getFileMeta\<close> would do; otherwise \<open>getFileMeta\<close> runs once:
  if it fails the entry is fresh, and if it succeeds the entry is fresh exactly when the
  current marker is absent, empty or equal to the stored one.
\<close>

theorem validateCacheItem_verdict:
  "(\<not> truthy (lastTouchedAt cacheItem) \<longrightarrow> validateCacheItem cacheItem vp w = (True, w))
   \<and> (truthy (lastTouchedAt cacheItem) \<and> fst (getFileMeta vp w) = Rejected \<longrightarrow>
        validateCacheItem cacheItem vp w = (True, snd (getFileMeta vp w)))
   \<and> (truthy (lastTouchedAt cacheItem) \<and> fst (getFileMeta vp w) = Resolved current \<longrightarrow>
        validateCacheItem cacheItem vp w =
          (\<not> truthy current \<or> current = lastTouchedAt cacheItem, snd (getFileMeta vp w)))"
  by (auto simp: validateCacheItem_def split: prod.splits fileMeta.splits)

theorem validateCacheItem_verdict_witness:
  "validateCacheItem \<lparr>data = mockDesign ''deep'' [mockNode1], lastTouchedAt = Some ''''\<rparr>
      (mockMeta (Some ''T2'')) 0 = (True, 0)
   \<and> validateCacheItem \<lparr>data = mockDesign ''deep'' [mockNode1], lastTouchedAt = Some ''T1''\<rparr>
      mockMetaError 0 = (True, 1)
   \<and> validateCacheItem \<lparr>data = mockDesign ''deep'' [mockNode1], lastTouchedAt = Some ''T1''\<rparr>
      (mockMeta (Some ''T2'')) 0 = (False, 1)
   \<and> validateCacheItem \<lparr>data = mockDesign ''deep'' [mockNode1], lastTouchedAt = Some ''T1''\<rparr>
      (mockMeta None) 0 = (True, 1)"
  using
    validateCacheItem_verdict
      [where cacheItem = "\<lparr>data = mockDesign ''deep'' [mockNode1], lastTouchedAt = Some ''''\<rparr>"
        and vp = "mockMeta (Some ''T2'')" and w = 0 and current = None]
    validateCacheItem_verdict
      [where cacheItem = "\<lparr>data = mockDesign ''deep'' [mockNode1], lastTouchedAt = Some ''T1''\<rparr>"
        and vp = mockMetaError and w = 0 and current = None]
    validateCacheItem_verdict
      [where cacheItem = "\<lparr>data = mockDesign ''deep'' [mockNode1], lastTouchedAt = Some ''T1''\<rparr>"
        and vp = "mockMeta (Some ''T2'')" and w = 0 and current = "Some ''T2''"]
    validateCacheItem_verdict
      [where cacheItem = "\<lparr>data = mockDesign ''deep'' [mockNode1], lastTouchedAt = Some ''T1''\<rparr>"
        and vp = "mockMeta None" and w = 0 and current = None]
  by (simp add: truthy_def mockMeta_def mockMetaError_def)

subsection \<open>Stale entries and misses\<close>

lemma has_clearFileCache:
  "has k (clearFileCache f c) = (has k c \<and> \<not> startsWith k (f @ '':''))"
  by (simp add: has_def lru_has_def clearFileCache_cache
      map_of_filter_keys[where P = "\<lambda>k. \<not> startsWith k (f @ '':'')"])

lemma map_of_clearFileCache:
  "\<not> startsWith k (f @ '':'') \<Longrightarrow> map_of (cache (clearFileCache f c)) k = map_of (cache c) k"
  by (simp add: clearFileCache_cache
      map_of_filter_keys[where P = "\<lambda>k. \<not> startsWith k (f @ '':'')"])

text \<open>
  C6: when the scan finds an entry and validation judges it stale, \<open>findNodeData\<close>
  returns not-found and leaves the cache with exactly the entries whose key does not
  begin with \<open>fileKey:\<close>, in their order and with their values; the capacity is
  unchanged and, in a store that satisfies its invariant, the recency order of the
  remaining keys is too.
\<close>

theorem findNodeData_stale_clears_file:
  assumes "findNodeInCache fileKey nodeId requiredDepth c = Some (node, cacheItem)"
    and "fst (validateCacheItem cacheItem vp w) = False"
  shows "findNodeData fileKey nodeId (Some vp) requiredDepth c w
      = (None, clearFileCache fileKey c, snd (validateCacheItem cacheItem vp w))
   \<and> cache (clearFileCache fileKey c)
      = filter (\<lambda>e. \<not> startsWith (fst e) (fileKey @ '':'')) (cache c)
   \<and> (\<forall>k. has k (clearFileCache fileKey c) = (has k c \<and> \<not> startsWith k (fileKey @ '':'')))
   \<and> (\<forall>k. \<not> startsWith k (fileKey @ '':'') \<longrightarrow>
          map_of (cache (clearFileCache fileKey c)) k = map_of (cache c) k)
   \<and> capacity (clearFileCache fileKey c) = capacity c
   \<and> (lru_inv c \<longrightarrow>
        chain (clearFileCache fileKey c)
          = filter (\<lambda>k. \<not> startsWith k (fileKey @ '':'')) (chain c))"
proof -
  have "findNodeData fileKey nodeId (Some vp) requiredDepth c w
      = (None, clearFileCache fileKey c, snd (validateCacheItem cacheItem vp w))"
    using assms by (cases "validateCacheItem cacheItem vp w") (simp add: findNodeData_def)
  then show ?thesis
    using clearFileCache_cache[of fileKey c] has_clearFileCache[of _ fileKey c]
      map_of_clearFileCache[of _ fileKey c] clearFileCache_capacity[of fileKey c]
      clearFileCache_chain[of c fileKey]
    by simp
qed

theorem findNodeData_stale_clears_file_witness:
  "findNodeData ''file1'' ''node-1'' (Some (mockMeta (Some ''2023-01-02T10:00:00Z''))) None
      filesCache 0
    = (None,
       put ''file2:node-3:default'' (mockDesign ''other'' [mockNode3])
         (Some ''2023-01-01T10:00:00Z'') (new_ParseDataCache 10),
       1)
   \<and> \<not> has ''file1:node-1:default'' (clearFileCache ''file1'' filesCache)
   \<and> \<not> has ''file1:node-1:1'' (clearFileCache ''file1'' filesCache)
   \<and> has ''file2:node-3:default'' (clearFileCache ''file1'' filesCache)"
proof -
  let ?item = "\<lparr>data = mockDesign ''deep'' [mockNode1],
      lastTouchedAt = Some ''2023-01-01T10:00:00Z''\<rparr>"
  let ?vp = "mockMeta (Some ''2023-01-02T10:00:00Z'')"
  have h1: "findNodeInCache ''file1'' ''node-1'' None filesCache = Some (mockNode1, ?item)"
    by code_simp
  have v: "validateCacheItem ?item ?vp 0 = (False, 1)"
    by (simp add: validateCacheItem_def truthy_def mockMeta_def)
  then have h2: "fst (validateCacheItem ?item ?vp 0) = False" by simp
  note inst = findNodeData_stale_clears_file[OF h1 h2]
  have c: "clearFileCache ''file1'' filesCache
      = put ''file2:node-3:default'' (mockDesign ''other'' [mockNode3])
         (Some ''2023-01-01T10:00:00Z'') (new_ParseDataCache 10)"
    by code_simp
  have hs: "has ''file1:node-1:default'' filesCache" "has ''file1:node-1:1'' filesCache"
    "has ''file2:node-3:default'' filesCache"
    "startsWith ''file1:node-1:default'' (''file1'' @ '':'')"
    "startsWith ''file1:node-1:1'' (''file1'' @ '':'')"
    "\<not> startsWith ''file2:node-3:default'' (''file1'' @ '':'')"
    by code_simp+
  show ?thesis
    using inst[THEN conjunct1] inst[THEN conjunct2, THEN conjunct2, THEN conjunct1] v c hs
    by simp
qed

text \<open>
  C10: a lookup that misses returns not-found with the cache and the world as they
  were: \<open>get\<close> on a key the store does not have, and \<open>findNodeData\<close> when the scan finds
  no eligible entry. The world is unchanged for every \<open>getFileMeta\<close>, so the remote
  call is not made.
\<close>

theorem miss_changes_nothing:
  "(\<not> has cacheKey c \<longrightarrow> get cacheKey vp c w = (None, c, w))
   \<and> (List.find (candidate fileKey nodeId requiredDepth) (cache c) = None \<longrightarrow>
        findNodeData fileKey nodeId vp requiredDepth c w = (None, c, w))
   \<and> (findNodeInCache fileKey nodeId requiredDepth c = None \<longrightarrow>
        findNodeData fileKey nodeId vp requiredDepth c w = (None, c, w))"
  using findNodeInCache_None[of fileKey nodeId requiredDepth c]
  by (auto simp: get_def has_def lru_has_def lru_get_def findNodeData_def)

theorem miss_changes_nothing_witness:
  "\<not> has ''file1:node-9:default'' depthCache
   \<and> get ''file1:node-9:default'' (Some (mockMeta (Some ''2023-01-02T10:00:00Z''))) depthCache 0
       = (None, depthCache, 0)
   \<and> List.find (candidate ''file1'' ''node-9'' (Some 1)) (cache depthCache) = None
   \<and> findNodeData ''file1'' ''node-9'' (Some (mockMeta (Some ''2023-01-02T10:00:00Z'')))
        (Some 1) depthCache 0 = (None, depthCache, 0)"
proof -
  have h1: "\<not> has ''file1:node-9:default'' depthCache" by code_simp
  have h2: "List.find (candidate ''file1'' ''node-9'' (Some 1)) (cache depthCache) = None"
    by code_simp
  note inst = miss_changes_nothing
    [where cacheKey = "''file1:node-9:default''" and c = depthCache
      and vp = "Some (mockMeta (Some ''2023-01-02T10:00:00Z''))" and w = "0::nat"
      and fileKey = "''file1''" and nodeId = "''node-9''" and requiredDepth = "Some 1"]
  show ?thesis
    using h1 h2 inst[THEN conjunct1, rule_format, OF h1]
      inst[THEN conjunct2, THEN conjunct1, rule_format, OF h2]
    by (intro conjI)
qed

section \<open>Properties of the copy on references\<close>

lemma objects_extend [simp]: "objects (extend s new) = objects s @ new"
  by (simp add: extend_def)

lemma cells_extend [simp]: "cells (extend s new) = cells s"
  by (simp add: extend_def)

lemma extend_extend [simp]: "extend (extend s a) b = extend s (a @ b)"
  by (simp add: extend_def)

lemma extend_Nil [simp]: "extend s [] = s"
  by (simp add: extend_def)

lemma read_props_extend [simp]:
  "a < length (objects s) \<Longrightarrow> read_props (extend s new) a = read_props s a"
  by (simp add: read_props_def nth_append)

lemma wf_store_iff:
  "wf_store s =
    (\<forall>obj\<in>set (objects s). \<forall>cs. ochildren obj = Some cs \<longrightarrow> (\<forall>c\<in>set cs. c < length (objects s)))"
  by (auto simp: wf_store_def list_all_iff split: option.splits)

lemma wf_store_extend:
  assumes "wf_store s"
    and "\<forall>cs. ochildren obj = Some cs \<longrightarrow> (\<forall>c\<in>set cs. c < Suc (length (objects s)))"
  shows "wf_store (extend s [obj])"
  using assms by (auto simp: wf_store_iff) (meson less_Suc_eq)

lemma shallow_copy_in_store:
  "shallow_copy n s a b \<Longrightarrow> a < length (objects s)"
  "shallow_copies n s as bs \<Longrightarrow> \<forall>a\<in>set as. a < length (objects s)"
  by (induction rule: shallow_copy_shallow_copies.inducts) auto

lemma shallow_copy_extend:
  "shallow_copy n s a b \<Longrightarrow> n \<le> length (objects s) \<Longrightarrow> shallow_copy n (extend s new) a b"
  "shallow_copies n s as bs \<Longrightarrow> n \<le> length (objects s) \<Longrightarrow> shallow_copies n (extend s new) as bs"
proof (induction rule: shallow_copy_shallow_copies.inducts)
  case (same a)
  then show ?case by (intro shallow_copy_shallow_copies.same) (auto simp: nth_append)
next
  case (cut a b)
  then show ?case by (intro shallow_copy_shallow_copies.cut) (auto simp: nth_append)
next
  case (inner a b as bs)
  show ?case
    by (rule shallow_copy_shallow_copies.inner[where as = as and bs = bs])
      (use inner in \<open>auto simp: nth_append\<close>)
next
  case none
  show ?case by (rule shallow_copy_shallow_copies.none)
next
  case (more a b as bs)
  then show ?case by (intro shallow_copy_shallow_copies.more) auto
qed

lemma shallow_copy_same:
  assumes "a < n" "n \<le> length (objects s)"
    "ochildren (objects s ! a) = None \<or> ochildren (objects s ! a) = Some []"
  shows "shallow_copy n s a a"
  using assms by (intro shallow_copy_shallow_copies.same) auto

lemma limit_ref_main:
  "(node < n \<longrightarrow> n \<le> length (objects s) \<longrightarrow> wf_store s \<longrightarrow>
      (\<forall>a<n. \<forall>cs. ochildren (objects s ! a) = Some cs \<longrightarrow> (\<forall>c\<in>set cs. c < n)) \<longrightarrow>
      (\<exists>new r. limitNodeDepth_ref s node maxDepth = Some (extend s new, r)
         \<and> wf_store (extend s new) \<and> shallow_copy n (extend s new) r node
         \<and> (maxDepth \<le> 0 \<or> (\<exists>c cs. ochildren (objects s ! node) = Some (c # cs))
              \<longrightarrow> length (objects s) \<le> r)))"
  and
  "((\<forall>c\<in>set kids. c < n) \<longrightarrow> n \<le> length (objects s) \<longrightarrow> wf_store s \<longrightarrow>
      (\<forall>a<n. \<forall>cs. ochildren (objects s ! a) = Some cs \<longrightarrow> (\<forall>c\<in>set cs. c < n)) \<longrightarrow>
      (\<exists>new rs. limitChildren_ref s kids maxDepth = Some (extend s new, rs)
         \<and> wf_store (extend s new) \<and> shallow_copies n (extend s new) rs kids))"
proof (induction s node maxDepth and s kids maxDepth arbitrary: n and n
    rule: limitNodeDepth_ref_limitChildren_ref.induct)
  case (1 s node maxDepth)
  show ?case
  proof (intro impI)
    assume ltn: "node < n" and n: "n \<le> length (objects s)" and wf: "wf_store s"
      and cl: "\<forall>a<n. \<forall>cs. ochildren (objects s ! a) = Some cs \<longrightarrow> (\<forall>c\<in>set cs. c < n)"
    have lt: "node < length (objects s)" using ltn n by simp
    show "\<exists>new r. limitNodeDepth_ref s node maxDepth = Some (extend s new, r)
         \<and> wf_store (extend s new) \<and> shallow_copy n (extend s new) r node
         \<and> (maxDepth \<le> 0 \<or> (\<exists>c cs. ochildren (objects s ! node) = Some (c # cs))
              \<longrightarrow> length (objects s) \<le> r)"
    proof (cases "maxDepth \<le> 0")
      case True
      let ?obj = "(objects s ! node)\<lparr>ochildren := None\<rparr>"
      have "limitNodeDepth_ref s node maxDepth = Some (extend s [?obj], length (objects s))"
        using True lt by (simp add: alloc_def)
      moreover have "wf_store (extend s [?obj])" using wf by (intro wf_store_extend) auto
      moreover have "shallow_copy n (extend s [?obj]) (length (objects s)) node"
        using n ltn lt by (intro shallow_copy_shallow_copies.cut) (auto simp: nth_append)
      ultimately show ?thesis by blast
    next
      case False
      show ?thesis
      proof (cases "ochildren (objects s ! node)")
        case None
        have "limitNodeDepth_ref s node maxDepth = Some (extend s [], node)"
          using False lt None by simp
        moreover have "shallow_copy n (extend s []) node node"
          using shallow_copy_same[of node n s] ltn n None by simp
        ultimately show ?thesis using wf False None by (intro exI[of _ "[]"]) auto
      next
        case (Some cs)
        show ?thesis
        proof (cases "cs = []")
          case True
          have "limitNodeDepth_ref s node maxDepth = Some (extend s [], node)"
            using False lt Some True by simp
          moreover have "shallow_copy n (extend s []) node node"
            using shallow_copy_same[of node n s] ltn n Some True by simp
          ultimately show ?thesis using wf False Some True by (intro exI[of _ "[]"]) auto
        next
          case ne: False
          have inr: "\<forall>c\<in>set cs. c < n" using cl ltn Some by blast
          obtain new rs where r: "limitChildren_ref s cs (maxDepth - 1) = Some (extend s new, rs)"
            and wf1: "wf_store (extend s new)" and cp: "shallow_copies n (extend s new) rs cs"
            using 1[of cs n] lt False Some ne inr wf n cl by auto
          let ?obj = "(objects s ! node)\<lparr>ochildren := Some rs\<rparr>"
          have res: "limitNodeDepth_ref s node maxDepth
              = Some (extend s (new @ [?obj]), length (objects s @ new))"
            using False lt Some ne r by (simp add: alloc_def)
          have "\<forall>c\<in>set rs. c < length (objects (extend s new))"
            using shallow_copy_in_store(2)[OF cp] .
          then have wf2: "wf_store (extend (extend s new) [?obj])"
            using wf1 by (intro wf_store_extend) auto
          have "shallow_copy n (extend (extend s new) [?obj]) (length (objects s @ new)) node"
          proof (rule shallow_copy_shallow_copies.inner[where as = rs and bs = cs])
            show "n \<le> length (objects s @ new)" using n by simp
            show "length (objects s @ new) < length (objects (extend (extend s new) [?obj]))"
              by simp
            show "node < n" by (rule ltn)
            show "oid (objects (extend (extend s new) [?obj]) ! length (objects s @ new))
                = oid (objects (extend (extend s new) [?obj]) ! node)"
              using lt by (simp add: nth_append)
            show "oprops (objects (extend (extend s new) [?obj]) ! length (objects s @ new))
                = oprops (objects (extend (extend s new) [?obj]) ! node)"
              using lt by (simp add: nth_append)
            show "ochildren (objects (extend (extend s new) [?obj]) ! length (objects s @ new))
                = Some rs"
              by (simp add: nth_append)
            show "ochildren (objects (extend (extend s new) [?obj]) ! node) = Some cs"
              using lt Some by (simp add: nth_append)
            show "shallow_copies n (extend (extend s new) [?obj]) rs cs"
              using shallow_copy_extend(2)[OF cp] n by simp
          qed
          then show ?thesis using res wf2 by (intro exI[of _ "new @ [?obj]"]) auto
        qed
      qed
    qed
  qed
next
  case (2 s maxDepth)
  show ?case
    by (auto intro!: exI[of _ "[]"] shallow_copy_shallow_copies.none)
next
  case (3 s child cs maxDepth)
  show ?case
  proof (intro impI)
    assume inr: "\<forall>c\<in>set (child # cs). c < n" and n: "n \<le> length (objects s)"
      and wf: "wf_store s"
      and cl: "\<forall>a<n. \<forall>cs. ochildren (objects s ! a) = Some cs \<longrightarrow> (\<forall>c\<in>set cs. c < n)"
    obtain new1 r1 where a: "limitNodeDepth_ref s child maxDepth = Some (extend s new1, r1)"
      and wf1: "wf_store (extend s new1)" and cp1: "shallow_copy n (extend s new1) r1 child"
      using 3(1)[of n] inr wf n cl by auto
    have inr1: "\<forall>c\<in>set cs. c < n" using inr by auto
    have n1: "n \<le> length (objects (extend s new1))" using n by simp
    have cl1: "\<forall>a<n. \<forall>cs. ochildren (objects (extend s new1) ! a) = Some cs
        \<longrightarrow> (\<forall>c\<in>set cs. c < n)"
      using cl n by (simp add: nth_append)
    obtain new2 rs where b: "limitChildren_ref (extend s new1) cs maxDepth
          = Some (extend (extend s new1) new2, rs)"
      and wf2: "wf_store (extend (extend s new1) new2)"
      and cp2: "shallow_copies n (extend (extend s new1) new2) rs cs"
      using 3(2)[OF a refl, of n] inr1 wf1 n1 cl1 by auto
    have "limitChildren_ref s (child # cs) maxDepth = Some (extend s (new1 @ new2), r1 # rs)"
      using a b by simp
    moreover have "shallow_copy n (extend s (new1 @ new2)) r1 child"
      using shallow_copy_extend(1)[OF cp1 n1, of new2] by simp
    ultimately show "\<exists>new rs. limitChildren_ref s (child # cs) maxDepth = Some (extend s new, rs)
         \<and> wf_store (extend s new) \<and> shallow_copies n (extend s new) rs (child # cs)"
      using wf2 cp2
      by (intro exI[of _ "new1 @ new2"] exI[of _ "r1 # rs"])
        (auto intro: shallow_copy_shallow_copies.more)
  qed
qed

lemma limit_ref_extends:
  "limitNodeDepth_ref s node maxDepth = Some (s', r) \<longrightarrow> (\<exists>new. s' = extend s new)"
  "limitChildren_ref s kids maxDepth = Some (s', rs) \<longrightarrow>
     (\<exists>new. s' = extend s new) \<and> length rs = length kids"
proof (induction s node maxDepth and s kids maxDepth arbitrary: s' r and s' rs
    rule: limitNodeDepth_ref_limitChildren_ref.induct)
  case (1 s node maxDepth)
  show ?case
  proof (cases "length (objects s) \<le> node \<or> maxDepth \<le> 0 \<or> ochildren (objects s ! node) = None
      \<or> ochildren (objects s ! node) = Some []")
    case True
    then show ?thesis by (auto simp: alloc_def intro: exI[of _ "[]"])
  next
    case False
    then obtain cs where cs: "ochildren (objects s ! node) = Some cs" "cs \<noteq> []" by auto
    show ?thesis
    proof
      assume a: "limitNodeDepth_ref s node maxDepth = Some (s', r)"
      then obtain s1 cs' where b: "limitChildren_ref s cs (maxDepth - 1) = Some (s1, cs')"
        using False cs by (auto split: option.splits)
      then obtain new where "s1 = extend s new" using 1[of cs s1 cs'] False cs by auto
      then show "\<exists>new. s' = extend s new" using a b False cs by (auto simp: alloc_def)
    qed
  qed
next
  case (2 s maxDepth)
  show ?case by (auto intro: exI[of _ "[]"])
next
  case (3 s child cs maxDepth)
  show ?case
  proof
    assume a: "limitChildren_ref s (child # cs) maxDepth = Some (s', rs)"
    then obtain s1 c' where b: "limitNodeDepth_ref s child maxDepth = Some (s1, c')"
      by (auto split: option.splits)
    then obtain s2 cs' where c: "limitChildren_ref s1 cs maxDepth = Some (s2, cs')"
      using a by (auto split: option.splits)
    obtain e1 where e1: "s1 = extend s e1" using 3(1)[of s1 c'] b by auto
    obtain e2 where e2: "s2 = extend s1 e2" "length cs' = length cs"
      using 3(2)[OF b refl, of s2 cs'] c by auto
    show "(\<exists>new. s' = extend s new) \<and> length rs = length (child # cs)"
      using a b c e1 e2 by auto
  qed
qed

lemma represents_in_store: "represents s a t \<Longrightarrow> a < length (objects s)"
  by (induction rule: represents.induct) auto

lemma represents_frame:
  assumes "represents s a t"
    and "cells s' = cells s"
    and "take (length (objects s)) (objects s') = objects s"
  shows "represents s' a t"
  using assms(1)
proof (induction rule: represents.induct)
  case (absent a)
  have len: "length (objects s) \<le> length (objects s')"
    using arg_cong[OF assms(3), of length] by simp
  have eq: "objects s' ! a = objects s ! a"
    using assms(3) absent(1) by (metis nth_take)
  have "read_props s' a = read_props s a" using eq assms(2) by (simp add: read_props_def)
  then show ?case using represents.absent[of a s'] absent len eq by simp
next
  case (present a cs ts)
  have len: "length (objects s) \<le> length (objects s')"
    using arg_cong[OF assms(3), of length] by simp
  have eq: "objects s' ! a = objects s ! a"
    using assms(3) present(1) by (metis nth_take)
  have rp: "read_props s' a = read_props s a" using eq assms(2) by (simp add: read_props_def)
  have "list_all2 (represents s') cs ts"
    using present(3) by (rule list_all2_mono) simp
  then show ?case using represents.present[of a s' cs ts] present(1,2) len eq rp by simp
qed

lemma represents_extend: "represents s a t \<Longrightarrow> represents (extend s new) a t"
  by (erule represents_frame) simp_all

lemma represents_children:
  assumes "represents s a t"
  shows "nid t = oid (objects s ! a) \<and> nfields t = read_props s a
     \<and> rel_option (list_all2 (represents s)) (ochildren (objects s ! a)) (children t)"
  using assms by (cases rule: represents.cases) auto

lemma limit_ref_represents:
  "limitNodeDepth_ref s node maxDepth = Some (s', r) \<longrightarrow> represents s node t \<longrightarrow>
     represents s' r (limitNodeDepth t maxDepth)"
  "limitChildren_ref s kids maxDepth = Some (s', rs) \<longrightarrow> list_all2 (represents s) kids ts \<longrightarrow>
     list_all2 (represents s') rs (map (\<lambda>c. limitNodeDepth c maxDepth) ts)"
proof (induction s node maxDepth and s kids maxDepth arbitrary: s' r t and s' rs ts
    rule: limitNodeDepth_ref_limitChildren_ref.induct)
  case (1 s node maxDepth)
  show ?case
  proof (intro impI)
    assume a: "limitNodeDepth_ref s node maxDepth = Some (s', r)" and rep: "represents s node t"
    have lt: "node < length (objects s)" using rep by (rule represents_in_store)
    obtain i p ch where t: "t = Node i p ch" by (cases t)
    have ip: "i = oid (objects s ! node)" "p = read_props s node"
      and rel: "rel_option (list_all2 (represents s)) (ochildren (objects s ! node)) ch"
      using represents_children[OF rep] t by auto
    show "represents s' r (limitNodeDepth t maxDepth)"
    proof (cases "maxDepth \<le> 0")
      case True
      let ?obj = "(objects s ! node)\<lparr>ochildren := None\<rparr>"
      have res: "s' = extend s [?obj]" "r = length (objects s)"
        using a lt True by (auto simp: alloc_def)
      have "read_props (extend s [?obj]) (length (objects s)) = read_props s node"
        by (simp add: read_props_def)
      then show ?thesis
        using True t ip res represents.absent[of "length (objects s)" "extend s [?obj]"]
        by simp
    next
      case False
      show ?thesis
      proof (cases "ochildren (objects s ! node)")
        case None
        then have "ch = None" using rel by (cases ch) auto
        then show ?thesis using a lt False None rep t by simp
      next
        case (Some cs)
        then obtain ts where ch: "ch = Some ts" and l2: "list_all2 (represents s) cs ts"
          using rel by (cases ch) auto
        show ?thesis
        proof (cases "cs = []")
          case True
          then have "ts = []" using l2 by simp
          then show ?thesis using a lt False Some True rep t ch by simp
        next
          case ne: False
          then have tne: "ts \<noteq> []" using l2 by auto
          obtain s1 cs' where b: "limitChildren_ref s cs (maxDepth - 1) = Some (s1, cs')"
            using a lt False Some ne by (auto split: option.splits)
          have l3: "list_all2 (represents s1) cs' (map (\<lambda>c. limitNodeDepth c (maxDepth - 1)) ts)"
            using 1[of cs s1 cs' ts] lt False Some ne b l2 by auto
          obtain new where s1: "s1 = extend s new"
            using limit_ref_extends(2)[of s cs "maxDepth - 1" s1 cs'] b by auto
          let ?obj = "(objects s ! node)\<lparr>ochildren := Some cs'\<rparr>"
          have res: "s' = extend s1 [?obj]" "r = length (objects s1)"
            using a lt False Some ne b by (auto simp: alloc_def)
          have rp: "read_props (extend s1 [?obj]) (length (objects s1)) = read_props s node"
            using s1 by (simp add: read_props_def)
          have "list_all2 (represents (extend s1 [?obj])) cs'
              (map (\<lambda>c. limitNodeDepth c (maxDepth - 1)) ts)"
            using l3 by (rule list_all2_mono) (simp add: represents_extend)
          then have "represents (extend s1 [?obj]) (length (objects s1))
              (Node i p (Some (map (\<lambda>c. limitNodeDepth c (maxDepth - 1)) ts)))"
            using represents.present[of "length (objects s1)" "extend s1 [?obj]" cs'
                "map (\<lambda>c. limitNodeDepth c (maxDepth - 1)) ts"] ip rp
            by simp
          then show ?thesis using res t ch tne False by simp
        qed
      qed
    qed
  qed
next
  case (2 s maxDepth)
  show ?case by auto
next
  case (3 s child cs maxDepth)
  show ?case
  proof (intro impI)
    assume a: "limitChildren_ref s (child # cs) maxDepth = Some (s', rs)"
      and l2: "list_all2 (represents s) (child # cs) ts"
    obtain t ts' where ts: "ts = t # ts'" and rt: "represents s child t"
      and l2': "list_all2 (represents s) cs ts'"
      using l2 by (cases ts) auto
    obtain s1 c' where b: "limitNodeDepth_ref s child maxDepth = Some (s1, c')"
      using a by (auto split: option.splits)
    then obtain s2 cs' where c: "limitChildren_ref s1 cs maxDepth = Some (s2, cs')"
      using a by (auto split: option.splits)
    obtain e1 where e1: "s1 = extend s e1"
      using limit_ref_extends(1)[of s child maxDepth s1 c'] b by auto
    obtain e2 where e2: "s2 = extend s1 e2"
      using limit_ref_extends(2)[of s1 cs maxDepth s2 cs'] c by auto
    have r1: "represents s1 c' (limitNodeDepth t maxDepth)"
      using 3(1)[of s1 c' t] b rt by auto
    have "list_all2 (represents s1) cs ts'"
      using l2' e1 by (auto intro: list_all2_mono simp: represents_extend)
    then have r2: "list_all2 (represents s2) cs' (map (\<lambda>c. limitNodeDepth c maxDepth) ts')"
      using 3(2)[OF b refl, of s2 cs' ts'] c by auto
    have "represents s2 c' (limitNodeDepth t maxDepth)"
      using r1 e2 by (simp add: represents_extend)
    then show "list_all2 (represents s') rs (map (\<lambda>c. limitNodeDepth c maxDepth) ts)"
      using a b c r2 ts by auto
  qed
qed

lemma represents_assign_new:
  assumes "represents s b t" and "length (objects s) \<le> a"
  shows "represents (assign_own a obj (extend s new)) b t"
  using assms(1)
proof (rule represents_frame)
  show "cells (assign_own a obj (extend s new)) = cells s"
    by (simp add: assign_own_def)
  show "take (length (objects s)) (objects (assign_own a obj (extend s new))) = objects s"
    using assms(2) by (simp add: assign_own_def)
qed

text \<open>
  C9, as stated, fails, in two ways. A node without children that is reached above
  the depth bound is returned as the stored object (\<open>return node\<close>): \<open>child-2\<close>, stored
  at reference 3 and asked for with depth 1, comes back as reference 3, so assigning
  to its \<open>name\<close> changes what the snapshot reads. And a newly allocated node shares the
  objects its properties refer to: the copy of the instance \<open>3:1\<close> made at depth 0 has
  the stored node's own \<open>componentProperties\<close> array, so changing that array through
  the copy changes what the stored node reads.
\<close>

theorem limitNodeDepth_ref_shares_objects_counterexample:
  "finalNode_ref mockStore 3 (Some 1) = Some (mockStore, 3)
   \<and> limitNodeDepth_ref mockStore 3 1 = Some (mockStore, 3)
   \<and> read_props
        (assign_own 3
           \<lparr>oid = ''child-2'',
            oprops = [(''name'', Prim ''changed''), (''type'', Prim ''TEXT'')],
            ochildren = None\<rparr> mockStore) 3
       \<noteq> read_props mockStore 3
   \<and> finalNode_ref instanceStore 0 (Some 0) =
       Some (extend instanceStore
          [\<lparr>oid = ''3:1'',
            oprops = [(''name'', Prim (Str ''My Instance'')), (''type'', Prim (Str ''INSTANCE'')),
                      (''componentId'', Prim (Str ''C1:100'')), (''componentProperties'', Ref 0)],
            ochildren = None\<rparr>], 1)
   \<and> read_props
        (mutate_cell 0 (Arr [(''textProperty'', ''changed'', ''TEXT'')])
          (extend instanceStore
            [\<lparr>oid = ''3:1'',
              oprops = [(''name'', Prim (Str ''My Instance'')), (''type'', Prim (Str ''INSTANCE'')),
                        (''componentId'', Prim (Str ''C1:100'')), (''componentProperties'', Ref 0)],
              ochildren = None\<rparr>])) 0
       \<noteq> read_props instanceStore 0"
  by (simp add: mockStore_def instanceStore_def finalNode_ref_def assign_own_def
      mutate_cell_def read_props_def alloc_def extend_def)

text \<open>
  C9 (amended): \<open>limit(node, maxDepth)\<close> never mutates its input: the store after the
  call is the store before it with new node objects added at the end; no stored node
  and no object a property refers to is changed. The reference it returns is the root
  of the depth-limited tree, as a shallow copy: every node of it is either a childless
  node of the input (children absent or empty), returned as it is, or a newly
  allocated object with the \<open>id\<close> and the own properties of the stored node at its
  place, value for value and reference for reference, so the objects its properties
  refer to are the stored node's own. The root is newly allocated when
  \<open>maxDepth \<le> 0\<close> or the node has a child. Assigning to own properties (the
  \<open>children\<close> among them) of a newly allocated node leaves what every stored tree reads
  unchanged.
\<close>

theorem limitNodeDepth_ref_copy:
  assumes "wf_store s" and "node < length (objects s)"
  shows "\<exists>new r. limitNodeDepth_ref s node maxDepth = Some (extend s new, r)
      \<and> wf_store (extend s new)
      \<and> shallow_copy (length (objects s)) (extend s new) r node
      \<and> (maxDepth \<le> 0 \<or> (\<exists>c cs. ochildren (objects s ! node) = Some (c # cs))
           \<longrightarrow> length (objects s) \<le> r)
      \<and> (\<forall>t. represents s node t \<longrightarrow> represents (extend s new) r (limitNodeDepth t maxDepth))
      \<and> (\<forall>a obj b t. length (objects s) \<le> a \<longrightarrow> represents s b t \<longrightarrow>
            represents (assign_own a obj (extend s new)) b t)
      \<and> (0 \<le> maxDepth \<longrightarrow>
           finalNode_ref s node (Some maxDepth) = limitNodeDepth_ref s node maxDepth)"
proof -
  have cl: "\<forall>a<length (objects s). \<forall>cs. ochildren (objects s ! a) = Some cs
      \<longrightarrow> (\<forall>c\<in>set cs. c < length (objects s))"
    using assms(1) unfolding wf_store_iff by (meson nth_mem)
  obtain new r where a: "limitNodeDepth_ref s node maxDepth = Some (extend s new, r)"
    and b: "wf_store (extend s new)" "shallow_copy (length (objects s)) (extend s new) r node"
      "maxDepth \<le> 0 \<or> (\<exists>c cs. ochildren (objects s ! node) = Some (c # cs))
        \<longrightarrow> length (objects s) \<le> r"
    using limit_ref_main(1)[of node "length (objects s)" s maxDepth] assms cl by auto
  have "represents (extend s new) r (limitNodeDepth t maxDepth)" if "represents s node t" for t
    using limit_ref_represents(1)[of s node maxDepth "extend s new" r t] a that by simp
  moreover have "finalNode_ref s node (Some maxDepth) = limitNodeDepth_ref s node maxDepth"
    if "0 \<le> maxDepth"
    using that by (simp add: finalNode_ref_def)
  moreover have "represents (assign_own a obj (extend s new)) b t"
    if "length (objects s) \<le> a" "represents s b t" for a obj b t
    using represents_assign_new[OF that(2,1)] .
  ultimately show ?thesis using a b by blast
qed

theorem limitNodeDepth_ref_copy_witness:
  "wf_store mockStore \<and> 4 < length (objects mockStore)
   \<and> limitNodeDepth_ref mockStore 4 1 =
       Some (extend mockStore
          [\<lparr>oid = ''child-1'',
            oprops = [(''name'', Prim ''Child Node 1''), (''type'', Prim ''RECTANGLE'')],
            ochildren = None\<rparr>,
           \<lparr>oid = ''child-2'',
            oprops = [(''name'', Prim ''Child Node 2''), (''type'', Prim ''TEXT'')],
            ochildren = None\<rparr>,
           \<lparr>oid = ''node-1'',
            oprops = [(''name'', Prim ''Test Node 1''), (''type'', Prim ''FRAME'')],
            ochildren = Some [5, 6]\<rparr>], 7)
   \<and> shallow_copy (length (objects mockStore))
        (extend mockStore
          [\<lparr>oid = ''child-1'',
            oprops = [(''name'', Prim ''Child Node 1''), (''type'', Prim ''RECTANGLE'')],
            ochildren = None\<rparr>,
           \<lparr>oid = ''child-2'',
            oprops = [(''name'', Prim ''Child Node 2''), (''type'', Prim ''TEXT'')],
            ochildren = None\<rparr>,
           \<lparr>oid = ''node-1'',
            oprops = [(''name'', Prim ''Test Node 1''), (''type'', Prim ''FRAME'')],
            ochildren = Some [5, 6]\<rparr>]) 7 4
   \<and> length (objects mockStore) \<le> 7"
proof -
  let ?new = "[\<lparr>oid = ''child-1'',
            oprops = [(''name'', Prim ''Child Node 1''), (''type'', Prim ''RECTANGLE'')],
            ochildren = None\<rparr>,
           \<lparr>oid = ''child-2'',
            oprops = [(''name'', Prim ''Child Node 2''), (''type'', Prim ''TEXT'')],
            ochildren = None\<rparr>,
           \<lparr>oid = ''node-1'',
            oprops = [(''name'', Prim ''Test Node 1''), (''type'', Prim ''FRAME'')],
            ochildren = Some [5, 6]\<rparr>]"
  have h1: "wf_store mockStore" by code_simp
  have h2: "4 < length (objects mockStore)" by code_simp
  have e: "limitNodeDepth_ref mockStore 4 1 = Some (extend mockStore ?new, 7)" by code_simp
  obtain new r where a: "limitNodeDepth_ref mockStore 4 1 = Some (extend mockStore new, r)"
    and b: "shallow_copy (length (objects mockStore)) (extend mockStore new) r 4"
    using limitNodeDepth_ref_copy[OF h1 h2, of 1] by blast
  have "extend mockStore new = extend mockStore ?new" "r = 7" using a e by simp_all
  then show ?thesis using h1 h2 e b by (simp add: mockStore_def)
qed

section \<open>The source snapshot of a multi-node lookup\<close>

lemma findMultipleNodes_empty:
  "findMultipleNodes fileKey [] vp requiredDepth c w
    = (\<lparr>cachedNodes = [], missingNodeIds = [], sourceDesign = None\<rparr>, c, w)"
  by (simp add: findMultipleNodes_def)

lemma fold_source_scan:
  "fold (\<lambda>(k, v) sd. if P k v then Some (data v) else sd) es sd0 =
    (case List.find (\<lambda>e. P (fst e) (snd e)) (rev es) of
       None \<Rightarrow> sd0
     | Some e \<Rightarrow> Some (data (snd e)))"
  by (induction es arbitrary: sd0) (auto simp: find_append split: option.splits)

lemma source_scan_is_last_entry:
  "lru_forEach
      (\<lambda>cacheItem cacheKey sd.
         if startsWith cacheKey (fileKey @ '':'')
            \<and> findNodeInTree (nodes (data cacheItem)) nodeId \<noteq> None
         then Some (data cacheItem) else sd)
      c None =
    map_option (data \<circ> snd)
      (List.find
         (\<lambda>e. startsWith (fst e) (fileKey @ '':'')
               \<and> findNodeInTree (nodes (data (snd e))) nodeId \<noteq> None)
         (rev (cache c)))"
  unfolding lru_forEach_def
  using fold_source_scan
    [where P = "\<lambda>k v. startsWith k (fileKey @ '':'')
                  \<and> findNodeInTree (nodes (data v)) nodeId \<noteq> None"
      and es = "cache c" and ?sd0.0 = None]
  by (simp split: option.splits)

text \<open>
  C7: in the cache the tests build for multi-node lookups, \<open>node-1\<close> is in the snapshots
  of two entries of \<open>file1\<close>. \<open>findNodeData\<close> takes it from the first, \<open>Test Design 1\<close>,
  but the source snapshot \<open>findMultipleNodes\<close> returns is that of the last,
  \<open>Multi Node Design\<close>: the second scan has no exit at the first match and does not
  look at the entry the node came from.
\<close>

theorem findMultipleNodes_source_not_backing_entry:
  "findNodeInCache ''file1'' ''node-1'' None multiCache =
      Some (mockNode1,
            \<lparr>data = mockDesign ''Test Design 1'' [mockNode1],
             lastTouchedAt = Some ''2023-01-01T10:00:00Z''\<rparr>)
   \<and> cachedNodes (fst (findMultipleNodes ''file1'' [''node-1'', ''node-2''] None None multiCache ()))
       = [mockNode1, mockNode2]
   \<and> sourceDesign (fst (findMultipleNodes ''file1'' [''node-1'', ''node-2''] None None multiCache ()))
       = Some (mockDesign ''Multi Node Design'' [mockNode1, mockNode2, mockNode3])
   \<and> mockDesign ''Multi Node Design'' [mockNode1, mockNode2, mockNode3]
       \<noteq> mockDesign ''Test Design 1'' [mockNode1]"
  by code_simp


end
